theory Spec2Isabelle
  imports Complex_Main "HOL-Library.Sublist"
begin

section \<open>Coordination service: project locks (admin-server/server.js)\<close>

text \<open>
  The service keeps two tables that matter here: \<open>api_keys\<close> (one row per issued key,
  with the editor's name) and \<open>project_locks\<close> (at most one row per project name, the
  column is \<open>UNIQUE\<close>). A table keyed by a unique column is a partial map.
\<close>

record api_key_row =
  editor_name :: string
  expires_at :: string
  revoked :: bool

record lock_row =
  locked_by :: string
  locked_at :: string

record db =
  api_keys :: "string \<rightharpoonup> api_key_row"
  project_locks :: "string \<rightharpoonup> lock_row"

text \<open>
  What a handler sends: the HTTP status and the JSON fields the lock handlers use.
  A field that the handler does not put into the object is \<open>None\<close>.
\<close>

record reply =
  http_status :: nat
  success :: "bool option"
  error :: "string option"
  lockedBy :: "string option"
  lockedAt :: "string option"

definition json_error :: "nat \<Rightarrow> string \<Rightarrow> reply" where
  "json_error st msg =
     \<lparr>http_status = st, success = None, error = Some msg, lockedBy = None, lockedAt = None\<rparr>"

definition json_success :: reply where
  "json_success =
     \<lparr>http_status = 200, success = Some True, error = None, lockedBy = None, lockedAt = None\<rparr>"

text \<open>
  \<open>POST /api/projects/lock\<close>: the third argument is the time stamp that
  \<open>new Date().toISOString()\<close> yields.
\<close>

definition lock_project :: "db \<Rightarrow> string \<Rightarrow> string \<Rightarrow> string \<Rightarrow> reply \<times> db" where
  "lock_project d apiKey projectName now =
     (case api_keys d apiKey of
        None \<Rightarrow> (json_error 401 ''Invalid API key'', d)
      | Some key \<Rightarrow>
          if revoked key then (json_error 401 ''Invalid API key'', d)
          else
            (case project_locks d projectName of
               Some existingLock \<Rightarrow>
                 (\<lparr>http_status = 200, success = Some False,
                   error = Some (''Project is locked by '' @ locked_by existingLock),
                   lockedBy = Some (locked_by existingLock),
                   lockedAt = Some (locked_at existingLock)\<rparr>, d)
             | None \<Rightarrow>
                 (json_success,
                  d\<lparr>project_locks := (project_locks d)
                       (projectName \<mapsto> \<lparr>locked_by = editor_name key, locked_at = now\<rparr>)\<rparr>)))"

text \<open>
  \<open>POST /api/projects/unlock\<close>: the key is looked up (its \<open>revoked\<close> flag is not
  read here), then the lock row; a row held by somebody else stops the request, anything
  else runs the \<open>DELETE\<close>.
\<close>

definition unlock_project :: "db \<Rightarrow> string \<Rightarrow> string \<Rightarrow> reply \<times> db" where
  "unlock_project d apiKey projectName =
     (case api_keys d apiKey of
        None \<Rightarrow> (json_error 401 ''Invalid API key'', d)
      | Some key \<Rightarrow>
          (case project_locks d projectName of
             Some lck \<Rightarrow>
               if locked_by lck \<noteq> editor_name key
               then (\<lparr>http_status = 200, success = Some False,
                      error = Some ''You do not own this lock'',
                      lockedBy = None, lockedAt = None\<rparr>, d)
               else (json_success, d\<lparr>project_locks := (project_locks d)(projectName := None)\<rparr>)
           | None \<Rightarrow>
               (json_success, d\<lparr>project_locks := (project_locks d)(projectName := None)\<rparr>)))"

text \<open>\<open>POST /api/projects/force-unlock\<close> (after \<open>requireAuth\<close>).\<close>

definition force_unlock_project :: "db \<Rightarrow> string \<Rightarrow> reply \<times> db" where
  "force_unlock_project d projectName =
     (json_success, d\<lparr>project_locks := (project_locks d)(projectName := None)\<rparr>)"

definition demo_db :: db where
  "demo_db =
     \<lparr>api_keys =
        [''key-A'' \<mapsto> \<lparr>editor_name = ''Alice'', expires_at = ''2099-01-01'', revoked = False\<rparr>,
         ''key-B'' \<mapsto> \<lparr>editor_name = ''Bob'', expires_at = ''2099-01-01'', revoked = False\<rparr>],
      project_locks = Map.empty\<rparr>"


section \<open>Transfer primitive: uploads\<close>

text \<open>
  The upload code talks to the object store through \<open>fetch\<close> and \<open>XMLHttpRequest\<close>, sleeps
  between retries, reads the local file and draws random numbers. All of that is the
  environment of the model: every request is answered by an oracle that sees the history of
  events so far, and every request and every sleep is appended to that history. The
  history is the observable behaviour that the properties below speak about.
\<close>

definition DRIVE_RESUMABLE_THRESHOLD :: nat where
  "DRIVE_RESUMABLE_THRESHOLD = 8 * 1024 * 1024"

definition DRIVE_CHUNK_SIZE :: nat where
  "DRIVE_CHUNK_SIZE = 8 * 1024 * 1024"

definition DRIVE_MAX_RETRIES :: nat where
  "DRIVE_MAX_RETRIES = 4"

subsection \<open>Errors\<close>

text \<open>
  \<open>createUploadError(message, status, retriable, retryAfterMs)\<close>. The message is kept as
  the place that built it. An exception that is not built by \<open>createUploadError\<close> (a
  rejected \<open>fetch\<close>, a failing \<open>json()\<close>, a file-system exception, \<open>new Error(...)\<close>)
  has no \<open>retriable\<close> and no \<open>retryAfterMs\<close> property: both read as falsy.
\<close>

datatype err_kind =
    NotAuthenticated | SearchFailed | CreateFailed
  | UploadFailed | ParseFailed | NetworkError | UploadAborted | UploadTimedOut
  | StartFailed | MissingSessionUrl
  | ChunkFailed | ChunkNetworkError | ChunkAborted | ChunkTimedOut | ChunkNotUploaded
  | FsRequired | UploadFailedFor | Thrown

record upload_error =
  err_kind :: err_kind
  err_status :: "nat option"
  err_retriable :: bool
  err_retryAfterMs :: "nat option"

definition createUploadError ::
  "err_kind \<Rightarrow> nat option \<Rightarrow> bool \<Rightarrow> nat option \<Rightarrow> upload_error" where
  "createUploadError k st r ra =
     \<lparr>err_kind = k, err_status = st, err_retriable = r, err_retryAfterMs = ra\<rparr>"

definition plainError :: "err_kind \<Rightarrow> upload_error" where
  "plainError k = \<lparr>err_kind = k, err_status = None, err_retriable = False, err_retryAfterMs = None\<rparr>"

subsection \<open>Requests, answers, events\<close>

record drive_file =
  df_id :: "string option"
  df_md5Checksum :: "string option"

text \<open>
  The body of an answer, as far as the code reads it: either it does not parse as JSON,
  or it is an object with an optional \<open>id\<close> and a \<open>files\<close> array.
\<close>

datatype body = Unparsable | Parsed "string option" "drive_file list"

text \<open>
  \<open>retry_after\<close> is what \<open>parseInt(header, 10)\<close> makes of the \<open>Retry-After\<close> header:
  \<open>None\<close> when the header is absent, empty or not a number.
\<close>

record response =
  status :: nat
  retry_after :: "int option"
  location :: "string option"
  body :: body

datatype net_outcome = Response response | NetworkFailure | Aborted | TimedOut

datatype request =
    SearchFile string string
  | CreateFile string string
  | PatchMedia "string option" string nat
  | StartResumable "string option" string nat
  | PutChunk string nat nat nat nat

text \<open>
  \<open>SearchFile name folderId\<close>, \<open>CreateFile name folderId\<close>;
  \<open>PatchMedia fileId mimeType n\<close> is the single \<open>PATCH ...?uploadType=media\<close> with a body
  of \<open>n\<close> bytes; \<open>StartResumable fileId mimeType totalSize\<close> is the
  \<open>PATCH ...?uploadType=resumable\<close> with \<open>X-Upload-Content-Type\<close> and
  \<open>X-Upload-Content-Length\<close>; \<open>PutChunk sessionUrl start end total n\<close> is a \<open>PUT\<close> with
  \<open>Content-Range: bytes start-end/total\<close> and a body of \<open>n\<close> bytes.
\<close>

datatype event = Sent request net_outcome | Slept nat

datatype file_input =
    StringInput string
  | BytesInput "nat list"
  | PathInput string "nat option"

text \<open>
  \<open>PathInput filePath size\<close> is the object \<open>{ filePath, size }\<close>; \<open>size\<close> is \<open>None\<close>
  when it is not a number.
\<close>

record env =
  token :: "string option"
  hasRequire :: bool
  net :: "event list \<Rightarrow> request \<Rightarrow> net_outcome"
  random :: "event list \<Rightarrow> real"
  md5Of :: "file_input \<Rightarrow> string option"
  statSize :: "string \<Rightarrow> nat option"
  readFileLen :: "string \<Rightarrow> nat option"
  canOpen :: "string \<Rightarrow> bool"
  readSync :: "string \<Rightarrow> nat \<Rightarrow> nat \<Rightarrow> nat option"

text \<open>
  \<open>token\<close>: what \<open>GoogleDrive.getValidToken()\<close> resolves to. \<open>hasRequire\<close>:
  \<open>typeof require !== 'undefined'\<close>. \<open>net\<close>: the answer to a request after a history.
  \<open>random\<close>: \<open>Math.random()\<close>. \<open>md5Of\<close>: the hex digest, \<open>None\<close> when reading or
  hashing throws. \<open>statSize\<close>, \<open>readFileLen\<close>, \<open>readSync\<close>: \<open>fs.statSync(p).size\<close>, the
  length of \<open>fs.readFileSync(p)\<close> and the byte count of
  \<open>fs.readSync(fd, buf, 0, length, position)\<close>, \<open>None\<close> when the call throws;
  \<open>canOpen\<close>: whether \<open>fs.openSync(p, 'r')\<close> returns.
\<close>

record upload_result =
  res_id :: "string option"
  skipped :: bool
  reason :: "string option"

definition truthy :: "string option \<Rightarrow> bool" where
  "truthy s = (case s of None \<Rightarrow> False | Some v \<Rightarrow> v \<noteq> [])"

definition or_else :: "string option \<Rightarrow> string option \<Rightarrow> string option" where
  "or_else a b = (if truthy a then a else b)"

definition send :: "env \<Rightarrow> request \<Rightarrow> event list \<Rightarrow> net_outcome \<times> event list" where
  "send e req hist = (let out = net e hist req in (out, hist @ [Sent req out]))"

subsection \<open>Retry policy\<close>

definition getRetryAfterMs :: "response \<Rightarrow> nat option" where
  "getRetryAfterMs r =
     (case retry_after r of
        None \<Rightarrow> None
      | Some seconds \<Rightarrow> if seconds \<ge> 0 then Some (nat seconds * 1000) else None)"

definition shouldRetryStatus :: "nat \<Rightarrow> bool" where
  "shouldRetryStatus st =
     (st = 408 \<or> st = 429 \<or> st = 500 \<or> st = 502 \<or> st = 503 \<or> st = 504)"

text \<open>
  \<open>attempt\<close> is the loop counter of the caller, 1 at the first attempt; \<open>rnd\<close> is the value
  of \<open>Math.random()\<close>.
\<close>

definition buildRetryDelayMs :: "nat \<Rightarrow> nat option \<Rightarrow> real \<Rightarrow> nat" where
  "buildRetryDelayMs attempt explicitRetryAfterMs rnd =
     (case explicitRetryAfterMs of
        Some ms \<Rightarrow>
          if ms > 0 then ms
          else min 30000 (1000 * 2 ^ (attempt - 1)) + nat \<lfloor>rnd * 500\<rfloor>
      | None \<Rightarrow> min 30000 (1000 * 2 ^ (attempt - 1)) + nat \<lfloor>rnd * 500\<rfloor>)"

definition getDynamicTimeoutMs :: "nat \<Rightarrow> nat" where
  "getDynamicTimeoutMs byteLength =
     (let minTimeout = 10 * 60 * 1000;
          maxTimeout = 2 * 60 * 60 * 1000;
          estimated = ((byteLength + 524287) div 524288) * 1000
      in min maxTimeout (max minTimeout estimated))"

definition is2xx :: "nat \<Rightarrow> bool" where
  "is2xx st = (200 \<le> st \<and> st < 300)"

text \<open>
  The three \<open>for (let attempt = 1; attempt <= DRIVE_MAX_RETRIES; attempt++)\<close> loops of the
  file have the same body: \<open>try\<close> one attempt; when it throws, rethrow if this was the last
  attempt or the error is not marked retriable, else sleep \<open>buildRetryDelayMs\<close> and go on.
  \<open>run\<close> is the attempt. The result is \<open>None\<close> when the loop ends without returning or
  throwing.
\<close>

function retryLoop ::
  "env \<Rightarrow> (event list \<Rightarrow> (upload_error + 'a) \<times> event list) \<Rightarrow> nat \<Rightarrow> event list
     \<Rightarrow> (upload_error + 'a) option \<times> event list" where
  "retryLoop e run attempt hist =
     (if attempt \<le> DRIVE_MAX_RETRIES then
        (case run hist of
           (Inr r, hist') \<Rightarrow> (Some (Inr r), hist')
         | (Inl err, hist') \<Rightarrow>
             if attempt \<ge> DRIVE_MAX_RETRIES \<or> \<not> err_retriable err then (Some (Inl err), hist')
             else
               let waitMs = buildRetryDelayMs attempt (err_retryAfterMs err) (random e hist')
               in retryLoop e run (attempt + 1) (hist' @ [Slept waitMs]))
      else (None, hist))"
  by pat_completeness auto
termination
  by (relation "measure (\<lambda>(e, run, attempt, hist). DRIVE_MAX_RETRIES + 1 - attempt)") auto

declare retryLoop.simps [simp del]

subsection \<open>Reading the input\<close>

definition isPathInput :: "file_input \<Rightarrow> bool" where
  "isPathInput fi = (case fi of PathInput p sz \<Rightarrow> p \<noteq> [] | _ \<Rightarrow> False)"

text \<open>The content is modelled by its length in bytes.\<close>

definition normalizeContent :: "env \<Rightarrow> file_input \<Rightarrow> upload_error + nat" where
  "normalizeContent e fi =
     (case fi of
        StringInput s \<Rightarrow> Inr (length s)
      | BytesInput bs \<Rightarrow> Inr (length bs)
      | PathInput p sz \<Rightarrow>
          if p \<noteq> [] then
            (if \<not> hasRequire e then Inl (createUploadError FsRequired None False None)
             else (case readFileLen e p of None \<Rightarrow> Inl (plainError Thrown) | Some n \<Rightarrow> Inr n))
          else Inr 0)"

definition getFileInputSize :: "env \<Rightarrow> file_input \<Rightarrow> nat" where
  "getFileInputSize e fi =
     (case fi of
        PathInput p sz \<Rightarrow>
          if p \<noteq> [] then
            (case sz of
               Some n \<Rightarrow> n
             | None \<Rightarrow> (if hasRequire e then (case statSize e p of Some n \<Rightarrow> n | None \<Rightarrow> 0) else 0))
          else 0
      | _ \<Rightarrow> (case normalizeContent e fi of Inr n \<Rightarrow> n | Inl err \<Rightarrow> 0))"

text \<open>
  \<open>computeLocalMd5\<close>: everything is inside one \<open>try\<close>; without \<open>require\<close>, and on any
  exception, the result is \<open>null\<close>.
\<close>

definition computeLocalMd5 :: "env \<Rightarrow> file_input \<Rightarrow> string option" where
  "computeLocalMd5 e fi = (if \<not> hasRequire e then None else md5Of e fi)"


subsection \<open>Metadata requests\<close>

text \<open>
  A \<open>fetch\<close> that does not resolve to a response rejects with an exception of the
  runtime; \<open>res.json()\<close> on a body that does not parse rejects likewise.
\<close>

definition findExistingDriveFile ::
  "env \<Rightarrow> string \<Rightarrow> string \<Rightarrow> event list \<Rightarrow> (upload_error + drive_file option) \<times> event list" where
  "findExistingDriveFile e fileName folderId hist =
     (case send e (SearchFile fileName folderId) hist of
        (Response r, hist') \<Rightarrow>
          if \<not> is2xx (status r)
          then (Inl (createUploadError SearchFailed (Some (status r))
                       (shouldRetryStatus (status r)) (getRetryAfterMs r)), hist')
          else
            (case body r of
               Unparsable \<Rightarrow> (Inl (plainError Thrown), hist')
             | Parsed i files \<Rightarrow>
                 (case files of [] \<Rightarrow> (Inr None, hist') | f # fs \<Rightarrow> (Inr (Some f), hist')))
      | (out, hist') \<Rightarrow> (Inl (plainError Thrown), hist'))"

definition ensureDriveFileMetadata ::
  "env \<Rightarrow> string \<Rightarrow> string \<Rightarrow> string option \<Rightarrow> event list
     \<Rightarrow> (upload_error + string option) \<times> event list" where
  "ensureDriveFileMetadata e fileName folderId existingId hist =
     (if truthy existingId then (Inr existingId, hist)
      else
        (case send e (CreateFile fileName folderId) hist of
           (Response r, hist') \<Rightarrow>
             if \<not> is2xx (status r)
             then (Inl (createUploadError CreateFailed (Some (status r))
                          (shouldRetryStatus (status r)) (getRetryAfterMs r)), hist')
             else
               (case body r of
                  Unparsable \<Rightarrow> (Inl (plainError Thrown), hist')
                | Parsed i files \<Rightarrow> (Inr i, hist'))
         | (out, hist') \<Rightarrow> (Inl (plainError Thrown), hist')))"

subsection \<open>One simple attempt\<close>

definition simpleUploadAttempt ::
  "env \<Rightarrow> nat \<Rightarrow> string \<Rightarrow> string option \<Rightarrow> event list
     \<Rightarrow> (upload_error + upload_result) \<times> event list" where
  "simpleUploadAttempt e content mimeType fileId hist =
     (case send e (PatchMedia fileId mimeType content) hist of
        (Response r, hist') \<Rightarrow>
          if is2xx (status r) then
            (case body r of
               Parsed i files \<Rightarrow>
                 (Inr \<lparr>res_id = or_else i fileId, skipped = False, reason = None\<rparr>, hist')
             | Unparsable \<Rightarrow>
                 (Inl (createUploadError ParseFailed (Some (status r)) False None), hist'))
          else
            (Inl (createUploadError UploadFailed (Some (status r))
                    (shouldRetryStatus (status r)) (getRetryAfterMs r)), hist')
      | (NetworkFailure, hist') \<Rightarrow> (Inl (createUploadError NetworkError None True None), hist')
      | (Aborted, hist') \<Rightarrow> (Inl (createUploadError UploadAborted None False None), hist')
      | (TimedOut, hist') \<Rightarrow> (Inl (createUploadError UploadTimedOut (Some 408) True None), hist'))"

subsection \<open>Resumable upload\<close>

definition createResumableSession ::
  "env \<Rightarrow> string \<Rightarrow> string option \<Rightarrow> nat \<Rightarrow> event list \<Rightarrow> (upload_error + string) \<times> event list" where
  "createResumableSession e mimeType fileId totalSize hist =
     (case send e (StartResumable fileId mimeType totalSize) hist of
        (Response r, hist') \<Rightarrow>
          if \<not> is2xx (status r)
          then (Inl (createUploadError StartFailed (Some (status r))
                       (shouldRetryStatus (status r)) (getRetryAfterMs r)), hist')
          else
            (case location r of
               None \<Rightarrow> (Inl (createUploadError MissingSessionUrl None False None), hist')
             | Some sessionUrl \<Rightarrow>
                 if sessionUrl = [] then (Inl (createUploadError MissingSessionUrl None False None), hist')
                 else (Inr sessionUrl, hist'))
      | (out, hist') \<Rightarrow> (Inl (plainError Thrown), hist'))"

record chunk_result =
  chunk_done :: bool
  chunk_id :: "string option"

text \<open>
  \<open>putResumableChunk(sessionUrl, chunkBuffer, start, end, total, ...)\<close>; the buffer is
  modelled by its length.
\<close>

definition putResumableChunk ::
  "env \<Rightarrow> string \<Rightarrow> nat \<Rightarrow> nat \<Rightarrow> nat \<Rightarrow> nat \<Rightarrow> event list
     \<Rightarrow> (upload_error + chunk_result) \<times> event list" where
  "putResumableChunk e sessionUrl chunkLen start end totalSize hist =
     (case send e (PutChunk sessionUrl start end totalSize chunkLen) hist of
        (Response r, hist') \<Rightarrow>
          if status r = 308 \<or> is2xx (status r) then
            (Inr \<lparr>chunk_done = is2xx (status r),
                  chunk_id = (case body r of
                                Parsed i files \<Rightarrow> or_else i None
                              | Unparsable \<Rightarrow> None)\<rparr>, hist')
          else
            (Inl (createUploadError ChunkFailed (Some (status r))
                    (shouldRetryStatus (status r)) (getRetryAfterMs r)), hist')
      | (NetworkFailure, hist') \<Rightarrow> (Inl (createUploadError ChunkNetworkError None True None), hist')
      | (Aborted, hist') \<Rightarrow> (Inl (createUploadError ChunkAborted None False None), hist')
      | (TimedOut, hist') \<Rightarrow> (Inl (createUploadError ChunkTimedOut (Some 408) True None), hist'))"

text \<open>
  The \<open>while (committedBytes < totalSize)\<close> loop of \<open>uploadResumableFromFile\<close>, as a
  function of \<open>committedBytes\<close> and the history.
\<close>

function chunkLoop ::
  "env \<Rightarrow> string \<Rightarrow> string \<Rightarrow> string option \<Rightarrow> nat \<Rightarrow> nat \<Rightarrow> event list
     \<Rightarrow> (upload_error + upload_result) \<times> event list" where
  "chunkLoop e filePath sessionUrl fileId totalSize committedBytes hist =
     (if committedBytes < totalSize then
        (let chunkSize = min DRIVE_CHUNK_SIZE (totalSize - committedBytes) in
         case readSync e filePath committedBytes chunkSize of
           None \<Rightarrow> (Inl (plainError Thrown), hist)
         | Some bytesRead \<Rightarrow>
             if bytesRead \<le> 0 then (Inr \<lparr>res_id = fileId, skipped = False, reason = None\<rparr>, hist)
             else
               (let start = committedBytes;
                    end = committedBytes + bytesRead - 1
                in case retryLoop e (putResumableChunk e sessionUrl bytesRead start end totalSize) 1 hist of
                     (Some (Inl err), hist') \<Rightarrow> (Inl err, hist')
                   | (None, hist') \<Rightarrow> (Inl (createUploadError ChunkNotUploaded None False None), hist')
                   | (Some (Inr chunkResult), hist') \<Rightarrow>
                       if chunk_done chunkResult
                       then (Inr \<lparr>res_id = or_else (chunk_id chunkResult) fileId,
                                  skipped = False, reason = None\<rparr>, hist')
                       else chunkLoop e filePath sessionUrl fileId totalSize
                              (committedBytes + bytesRead) hist'))
      else (Inr \<lparr>res_id = fileId, skipped = False, reason = None\<rparr>, hist))"
  by pat_completeness auto
termination
  by (relation "measure (\<lambda>(e, filePath, sessionUrl, fileId, totalSize, committedBytes, hist).
                  totalSize - committedBytes)") auto

declare chunkLoop.simps [simp del]

definition filePathOf :: "file_input \<Rightarrow> string" where
  "filePathOf fi = (case fi of PathInput p sz \<Rightarrow> p | _ \<Rightarrow> [])"

definition uploadResumableFromFile ::
  "env \<Rightarrow> file_input \<Rightarrow> string \<Rightarrow> string option \<Rightarrow> event list
     \<Rightarrow> (upload_error + upload_result) \<times> event list" where
  "uploadResumableFromFile e fileInput mimeType fileId hist =
     (if \<not> hasRequire e then (Inl (createUploadError FsRequired None False None), hist)
      else
        (let filePath = filePathOf fileInput;
             totalSize = getFileInputSize e fileInput
         in case createResumableSession e
                   (if mimeType = [] then ''application/octet-stream'' else mimeType)
                   fileId totalSize hist of
              (Inl err, hist') \<Rightarrow> (Inl err, hist')
            | (Inr sessionUrl, hist') \<Rightarrow>
                if \<not> canOpen e filePath then (Inl (plainError Thrown), hist')
                else chunkLoop e filePath sessionUrl fileId totalSize 0 hist'))"

subsection \<open>The upload of one file\<close>

text \<open>\<open>actualFileSize || getFileInputSize(fileInput)\<close>.\<close>

definition inputSizeOf :: "env \<Rightarrow> file_input \<Rightarrow> nat option \<Rightarrow> nat" where
  "inputSizeOf e fileInput actualFileSize =
     (case actualFileSize of
        Some n \<Rightarrow> if n \<noteq> 0 then n else getFileInputSize e fileInput
      | None \<Rightarrow> getFileInputSize e fileInput)"

text \<open>
  The second half of \<open>uploadFileWithProgress\<close>, from \<open>fileIsPathInput\<close> on: the choice
  between the resumable and the simple transfer, and the two retry loops. The resumable
  loop returns or throws on every pass; the model keeps the source's order, in which the
  simple transfer follows a loop that ends without doing either.
\<close>

definition uploadBody ::
  "env \<Rightarrow> file_input \<Rightarrow> string \<Rightarrow> string option \<Rightarrow> nat \<Rightarrow> event list
     \<Rightarrow> (upload_error + upload_result) \<times> event list" where
  "uploadBody e fileInput mimeType fileId inputSize hist =
     (let fileIsPathInput = isPathInput fileInput;
          shouldUseResumable = (fileIsPathInput \<and> inputSize \<ge> DRIVE_RESUMABLE_THRESHOLD)
      in case (if shouldUseResumable
               then retryLoop e (uploadResumableFromFile e fileInput mimeType fileId) 1 hist
               else (None, hist)) of
           (Some res, hist3) \<Rightarrow> (res, hist3)
         | (None, hist3) \<Rightarrow>
             (case normalizeContent e fileInput of
                Inl err \<Rightarrow> (Inl err, hist3)
              | Inr content \<Rightarrow>
                  (case retryLoop e (simpleUploadAttempt e content mimeType fileId) 1 hist3 of
                     (Some res, hist4) \<Rightarrow> (res, hist4)
                   | (None, hist4) \<Rightarrow> (Inl (plainError UploadFailedFor), hist4))))"

text \<open>
  \<open>uploadFileWithProgress(fileName, fileInput, mimeType, folderId, onProgress,
  actualFileSize, uploadContext)\<close>. The progress callback and the registration of the
  request for cancellation do not change what is sent; a cancellation shows as the
  answer \<open>Aborted\<close> of the environment.
\<close>

definition uploadFileWithProgress ::
  "env \<Rightarrow> string \<Rightarrow> file_input \<Rightarrow> string \<Rightarrow> string \<Rightarrow> nat option \<Rightarrow> event list
     \<Rightarrow> (upload_error + upload_result) \<times> event list" where
  "uploadFileWithProgress e fileName fileInput mimeType folderId actualFileSize hist =
     (if \<not> truthy (token e) then (Inl (plainError NotAuthenticated), hist)
      else
        (let inputSize = inputSizeOf e fileInput actualFileSize
         in case findExistingDriveFile e fileName folderId hist of
              (Inl err, hist1) \<Rightarrow> (Inl err, hist1)
            | (Inr existingFile, hist1) \<Rightarrow>
                (let existingId = (case existingFile of None \<Rightarrow> None | Some f \<Rightarrow> df_id f);
                     remoteMd5 = (case existingFile of None \<Rightarrow> None | Some f \<Rightarrow> df_md5Checksum f);
                     localMd5 = computeLocalMd5 e fileInput
                 in if truthy existingId \<and> truthy remoteMd5 \<and> truthy localMd5 \<and> remoteMd5 = localMd5
                    then (Inr \<lparr>res_id = existingId, skipped = True,
                               reason = Some ''Unchanged (MD5 match)''\<rparr>, hist1)
                    else
                      (case ensureDriveFileMetadata e fileName folderId existingId hist1 of
                         (Inl err, hist2) \<Rightarrow> (Inl err, hist2)
                       | (Inr fileId, hist2) \<Rightarrow>
                           uploadBody e fileInput mimeType fileId inputSize hist2))))"

subsection \<open>Vocabulary for the history\<close>

definition is_patch :: "event \<Rightarrow> bool" where
  "is_patch ev = (case ev of Sent (PatchMedia f m c) out \<Rightarrow> True | _ \<Rightarrow> False)"

definition is_start :: "event \<Rightarrow> bool" where
  "is_start ev = (case ev of Sent (StartResumable f m t) out \<Rightarrow> True | _ \<Rightarrow> False)"

definition is_put :: "event \<Rightarrow> bool" where
  "is_put ev = (case ev of Sent (PutChunk u s en t n) out \<Rightarrow> True | _ \<Rightarrow> False)"

definition is_sleep :: "event \<Rightarrow> bool" where
  "is_sleep ev = (case ev of Slept w \<Rightarrow> True | _ \<Rightarrow> False)"

text \<open>\<open>h'\<close> is \<open>h\<close> followed by events that all satisfy \<open>P\<close>.\<close>

definition extends_with :: "(event \<Rightarrow> bool) \<Rightarrow> event list \<Rightarrow> event list \<Rightarrow> bool" where
  "extends_with P h h' = (\<exists>new. h' = h @ new \<and> list_all P new)"

text \<open>
  The failures that the retry policy names: no connection, a timeout, or an answer with
  one of the six statuses.
\<close>

definition transient :: "net_outcome \<Rightarrow> bool" where
  "transient out =
     (case out of
        NetworkFailure \<Rightarrow> True
      | TimedOut \<Rightarrow> True
      | Aborted \<Rightarrow> False
      | Response r \<Rightarrow> status r \<in> {408, 429, 500, 502, 503, 504})"

text \<open>
  The chunks that the server accepted (status 308 or 2xx), in the order of the history:
  start, end and total of the \<open>Content-Range\<close> header and the length of the body.
\<close>

fun accepted_chunk :: "event \<Rightarrow> (nat \<times> nat \<times> nat \<times> nat) option" where
  "accepted_chunk (Sent (PutChunk u s en t n) (Response r)) =
     (if status r = 308 \<or> is2xx (status r) then Some (s, en, t, n) else None)"
| "accepted_chunk ev = None"

definition accepted_chunks :: "event list \<Rightarrow> (nat \<times> nat \<times> nat \<times> nat) list" where
  "accepted_chunks h = List.map_filter accepted_chunk h"

text \<open>
  A list of chunks partitions the bytes from \<open>c\<close> up to \<open>S\<close>: each chunk starts where the
  one before ended, names \<open>S\<close> as the total, carries exactly the bytes of its range, has at
  most 8 MiB, exactly 8 MiB when another chunk follows, and the last one ends at \<open>S - 1\<close>.
\<close>

fun partitions :: "nat \<Rightarrow> nat \<Rightarrow> (nat \<times> nat \<times> nat \<times> nat) list \<Rightarrow> bool" where
  "partitions S c [] = (c = S)"
| "partitions S c ((s, en, t, n) # cs) =
     (s = c \<and> s \<le> en \<and> en < S \<and> t = S \<and> n = en + 1 - s \<and> n \<le> DRIVE_CHUNK_SIZE \<and>
      (cs \<noteq> [] \<longrightarrow> n = DRIVE_CHUNK_SIZE) \<and> partitions S (en + 1) cs)"

definition chunk_len :: "nat \<times> nat \<times> nat \<times> nat \<Rightarrow> nat" where
  "chunk_len ch = (case ch of (s, en, t, n) \<Rightarrow> en + 1 - s)"

definition before :: "nat \<times> nat \<times> nat \<times> nat \<Rightarrow> nat \<times> nat \<times> nat \<times> nat \<Rightarrow> bool" where
  "before a b = (case a of (s, en, t, n) \<Rightarrow> case b of (s', en', t', n') \<Rightarrow> en < s')"

text \<open>The file at \<open>p\<close> holds \<open>S\<close> bytes: a read inside the first \<open>S\<close> bytes is never short.\<close>

definition full_reads :: "env \<Rightarrow> string \<Rightarrow> nat \<Rightarrow> bool" where
  "full_reads e p S = (\<forall>pos len. pos + len \<le> S \<longrightarrow> readSync e p pos len = Some len)"

text \<open>
  The server follows the resumable protocol: it answers a chunk with a final 2xx only
  when the chunk ends at the last byte of the declared total.
\<close>

definition terminal_only_at_end :: "env \<Rightarrow> bool" where
  "terminal_only_at_end e =
     (\<forall>h u s en t n r. net e h (PutChunk u s en t n) = Response r \<longrightarrow>
        is2xx (status r) \<longrightarrow> en + 1 = t)"

text \<open>
  Weaker than \<open>partitions\<close>, and true of every run: each accepted chunk starts where the
  one before ended (at \<open>committedBytes\<close>), names \<open>S\<close> as the total and carries exactly the
  bytes of its range. \<open>bounded_chunks\<close>: no chunk has more than 8 MiB or ends beyond
  byte \<open>S - 1\<close>. \<open>reads_bounded\<close>: \<open>fs.readSync\<close> never returns more bytes than it was
  asked for. \<open>put_in S\<close>: a \<open>PUT\<close>, accepted or not, names \<open>S\<close> as the total and carries
  exactly the bytes of its range.
\<close>

fun consecutive :: "nat \<Rightarrow> nat \<Rightarrow> (nat \<times> nat \<times> nat \<times> nat) list \<Rightarrow> bool" where
  "consecutive S c [] = True"
| "consecutive S c ((s, en, t, n) # cs) =
     (s = c \<and> s \<le> en \<and> t = S \<and> n = en + 1 - s \<and> consecutive S (en + 1) cs)"




text \<open>
  Where an upload that returned a result has stopped. \<open>reached c cs\<close> is the byte count
  committed after the accepted chunks \<open>cs\<close>, starting from \<open>c\<close>. \<open>final_2xx\<close>: the last
  event is a chunk \<open>PUT\<close> that the server answered with a 2xx. \<open>ended\<close>: the committed
  byte count has reached \<open>S\<close>, or the next read returned no byte, or the server has
  declared the upload complete.
\<close>

fun reached :: "nat \<Rightarrow> (nat \<times> nat \<times> nat \<times> nat) list \<Rightarrow> nat" where
  "reached c [] = c"
| "reached c ((s, en, t, n) # cs) = reached (en + 1) cs"

definition final_2xx :: "event list \<Rightarrow> bool" where
  "final_2xx tail =
     (tail \<noteq> [] \<and>
      (case last tail of
         Sent (PutChunk u s en t n) (Response r) \<Rightarrow> is2xx (status r)
       | _ \<Rightarrow> False))"

definition ended :: "env \<Rightarrow> string \<Rightarrow> nat \<Rightarrow> nat \<Rightarrow> event list \<Rightarrow> bool" where
  "ended e p S c tail =
     (let c' = reached c (accepted_chunks tail)
      in S \<le> c' \<or> readSync e p c' (min DRIVE_CHUNK_SIZE (S - c')) = Some 0 \<or> final_2xx tail)"

subsection \<open>A sample environment\<close>

definition ok200 :: response where
  "ok200 = \<lparr>status = 200, retry_after = None, location = Some ''https://session/1'',
            body = Parsed (Some ''file-1'') []\<rparr>"

definition incomplete308 :: response where
  "incomplete308 = \<lparr>status = 308, retry_after = None, location = None, body = Unparsable\<rparr>"

definition unavailable503 :: response where
  "unavailable503 = \<lparr>status = 503, retry_after = None, location = None, body = Unparsable\<rparr>"

text \<open>
  A server that answers the first two \<open>PUT\<close>s of the first chunk with 503, every other
  chunk with 308, the chunk that ends the file with 200, and everything else with 200.
\<close>

definition demo_net :: "event list \<Rightarrow> request \<Rightarrow> net_outcome" where
  "demo_net h req =
     (case req of
        PutChunk u s en t n \<Rightarrow>
          if s = 0 \<and> length h < 5 then Response unavailable503
          else if en + 1 = t then Response ok200 else Response incomplete308
      | _ \<Rightarrow> Response ok200)"

definition demo_env :: env where
  "demo_env =
     \<lparr>token = Some ''token'', hasRequire = True, net = demo_net, random = (\<lambda>h. 1 / 2),
      md5Of = (\<lambda>fi. Some ''0cc175b9c0f1b6a831c399e269772661''),
      statSize = (\<lambda>p. Some 20971520), readFileLen = (\<lambda>p. Some 20971520),
      canOpen = (\<lambda>p. True),
      readSync = (\<lambda>p pos len. Some (min len (20971520 - pos)))\<rparr>"

definition demo_file :: file_input where
  "demo_file = PathInput ''C:/media/a.mov'' (Some 20971520)"

definition demo_text :: file_input where
  "demo_text = StringInput (replicate 8388608 (CHR ''a''))"

text \<open>
  A second environment: the folder already holds the file, with the checksum of the local
  copy; the local file has 2 MiB.
\<close>

definition found200 :: response where
  "found200 = \<lparr>status = 200, retry_after = None, location = None,
               body = Parsed None [\<lparr>df_id = Some ''file-1'',
                 df_md5Checksum = Some ''0cc175b9c0f1b6a831c399e269772661''\<rparr>]\<rparr>"

definition demo_net_existing :: "event list \<Rightarrow> request \<Rightarrow> net_outcome" where
  "demo_net_existing h req =
     (case req of SearchFile n f \<Rightarrow> Response found200 | _ \<Rightarrow> demo_net h req)"

definition small_file :: file_input where
  "small_file = PathInput ''C:/media/b.wav'' (Some 2097152)"

definition demo_env_existing :: env where
  "demo_env_existing = demo_env\<lparr>net := demo_net_existing, readFileLen := (\<lambda>p. Some 2097152)\<rparr>"

text \<open>The same, but hashing the local file fails.\<close>

definition demo_env_nohash :: env where
  "demo_env_nohash = demo_env_existing\<lparr>md5Of := (\<lambda>fi. None)\<rparr>"



text \<open>
  Hashing fails, the folder holds a copy with the checksum of the local file, and the
  server answers 200 to every chunk.
\<close>

definition demo_env_nohash_early :: env where
  "demo_env_nohash_early =
     demo_env_nohash\<lparr>net := (\<lambda>h req. case req of SearchFile n f \<Rightarrow> Response found200
                                        | _ \<Rightarrow> Response ok200)\<rparr>"

subsection \<open>Vocabulary for the retry policy\<close>


text \<open>
  The requests that carry the file are the \<open>PATCH\<close> of the simple path, the request that
  opens a resumable session, and the \<open>PUT\<close> of a chunk. Such a request is \<open>refused\<close> when
  the code throws on its outcome: no connection, a timeout, or a status that is neither a
  2xx nor, for a chunk, 308. It is \<open>retried\<close> when the error thrown is marked retriable:
  for a \<open>PATCH\<close> and a chunk, a transient outcome; for the opening of a session, one of
  the six statuses (there the \<open>fetch\<close> is not wrapped, so a failed connection is thrown as
  it is, unmarked).
\<close>

definition is_transfer :: "request \<Rightarrow> bool" where
  "is_transfer rq =
     (case rq of
        PatchMedia f m n \<Rightarrow> True
      | StartResumable f m t \<Rightarrow> True
      | PutChunk u s en t n \<Rightarrow> True
      | _ \<Rightarrow> False)"

definition refused :: "request \<Rightarrow> net_outcome \<Rightarrow> bool" where
  "refused rq out =
     (case out of
        Response r \<Rightarrow>
          \<not> (is2xx (status r) \<or>
             (case rq of PutChunk u s en t n \<Rightarrow> status r = 308 | _ \<Rightarrow> False))
      | _ \<Rightarrow> True)"

definition retried :: "request \<Rightarrow> net_outcome \<Rightarrow> bool" where
  "retried rq out =
     (case rq of
        PatchMedia f m n \<Rightarrow> transient out
      | PutChunk u s en t n \<Rightarrow> transient out
      | StartResumable f m t \<Rightarrow>
          (case out of Response r \<Rightarrow> shouldRetryStatus (status r) | _ \<Rightarrow> False)
      | _ \<Rightarrow> False)"




definition last_state ::
  "(request \<times> net_outcome) option \<Rightarrow> event list \<Rightarrow> (request \<times> net_outcome) option" where
  "last_state prev evs =
     (if evs = [] then prev
      else (case last evs of Sent rq out \<Rightarrow> Some (rq, out) | Slept w \<Rightarrow> None))"

definition ends_refused :: "event list \<Rightarrow> bool" where
  "ends_refused evs =
     (case last_state None evs of Some (rq, out) \<Rightarrow> is_transfer rq \<and> refused rq out | None \<Rightarrow> False)"

definition ends_retried :: "event list \<Rightarrow> bool" where
  "ends_retried evs =
     (case last_state None evs of Some (rq, out) \<Rightarrow> retried rq out | None \<Rightarrow> False)"











section \<open>Upload orchestrator: the worker pool\<close>

text \<open>
  \<open>uploadProjectWithConcurrency\<close> starts \<open>min(MAX_PARALLEL_UPLOADS, totalFiles)\<close> workers.
  JavaScript runs one of them at a time, up to its next \<open>await\<close>; the user's clicks run in
  between. A run is therefore a sequence of events: a worker at the head of its loop is
  resumed, the upload that a worker awaits settles (with the value or the exception of the
  \<open>try\<close> body of \<open>processSingleFile\<close>), the user cancels everything, or the user cancels one
  file. A file is named by its index in \<open>allFilesToUpload\<close>: the \<open>uploadKey\<close> starts with
  the index and so is unique. The model is the run with the progress modal shown (the only
  one with cancel buttons); updates of the page are left out, and the manifest, written
  after the pool has drained, does not touch the counters.
\<close>

definition MAX_PARALLEL_UPLOADS :: nat where
  "MAX_PARALLEL_UPLOADS = 3"

datatype file_status = Queued | Uploading | Complete | SkippedSt | CancelledSt | ErrorSt

datatype report_status = RUploaded | RSkipped | RFailed | RCancelled

datatype worker = AtLoopHead | Awaiting nat | Returned

record pool =
  ctx_cancelled :: bool
  cancelledFiles :: "nat set"
  fileStatus :: "nat \<Rightarrow> file_status"
  nextFileIndex :: nat
  completedFiles :: nat
  uploadedFilesCount :: nat
  skippedFilesCount :: nat
  failedFilesCount :: nat
  cancelledFilesCount :: nat
  reportEntries :: "(nat \<times> report_status) list"
  workers :: "worker list"

datatype pool_event =
    Resume nat
  | Settle nat "upload_error + upload_result"
  | CancelAll
  | CancelFile nat

text \<open>
  \<open>processSingleFile\<close> up to its first \<open>await\<close>, run by worker \<open>w\<close> for the file \<open>i\<close>.
\<close>

definition processSingleFile_begin :: "nat \<Rightarrow> nat \<Rightarrow> pool \<Rightarrow> pool" where
  "processSingleFile_begin w i s =
     (if ctx_cancelled s then s
      else if i \<in> cancelledFiles s then
        s\<lparr>cancelledFilesCount := cancelledFilesCount s + 1,
          completedFiles := completedFiles s + 1,
          reportEntries := reportEntries s @ [(i, RCancelled)]\<rparr>
      else
        s\<lparr>fileStatus := (fileStatus s)(i := Uploading),
          workers := (workers s)[w := Awaiting i]\<rparr>)"

text \<open>
  The rest of \<open>processSingleFile\<close>, once the \<open>try\<close> body has a value (\<open>Inr\<close>, the result of
  \<open>uploadFileWithProgress\<close>) or has thrown (\<open>Inl\<close>).
\<close>

definition processSingleFile_settle ::
  "nat \<Rightarrow> nat \<Rightarrow> upload_error + upload_result \<Rightarrow> pool \<Rightarrow> pool" where
  "processSingleFile_settle w i out s =
     (case out of
        Inr result \<Rightarrow>
          (let wasSkipped = skipped result in
           s\<lparr>completedFiles := completedFiles s + 1,
             skippedFilesCount := (if wasSkipped then skippedFilesCount s + 1 else skippedFilesCount s),
             uploadedFilesCount := (if wasSkipped then uploadedFilesCount s else uploadedFilesCount s + 1),
             fileStatus := (fileStatus s)(i := (if wasSkipped then SkippedSt else Complete)),
             reportEntries := reportEntries s @ [(i, if wasSkipped then RSkipped else RUploaded)],
             workers := (workers s)[w := AtLoopHead]\<rparr>)
      | Inl err \<Rightarrow>
          if ctx_cancelled s \<or> i \<in> cancelledFiles s then
            s\<lparr>fileStatus := (fileStatus s)(i := CancelledSt),
              cancelledFilesCount := cancelledFilesCount s + 1,
              completedFiles := completedFiles s + 1,
              reportEntries := reportEntries s @ [(i, RCancelled)],
              workers := (workers s)[w := AtLoopHead]\<rparr>
          else
            s\<lparr>fileStatus := (fileStatus s)(i := ErrorSt),
              failedFilesCount := failedFilesCount s + 1,
              completedFiles := completedFiles s + 1,
              reportEntries := reportEntries s @ [(i, RFailed)],
              workers := (workers s)[w := AtLoopHead]\<rparr>)"

text \<open>One pass of \<open>worker\<close> from the head of \<open>while (true)\<close> to the \<open>await\<close> or the \<open>return\<close>.\<close>

definition worker_pass :: "nat \<Rightarrow> nat \<Rightarrow> pool \<Rightarrow> pool" where
  "worker_pass totalFiles w s =
     (if ctx_cancelled s then s\<lparr>workers := (workers s)[w := Returned]\<rparr>
      else
        (let currentIndex = nextFileIndex s;
             s1 = s\<lparr>nextFileIndex := nextFileIndex s + 1\<rparr>
         in if currentIndex \<ge> totalFiles then s1\<lparr>workers := (workers s1)[w := Returned]\<rparr>
            else processSingleFile_begin w currentIndex s1))"

text \<open>
  The click handlers: "Cancel ALL" sets the flag (and aborts the requests in flight, which
  then settle with an exception); the button of a file does nothing once the file is
  complete or skipped.
\<close>

fun pool_step :: "nat \<Rightarrow> pool \<Rightarrow> pool_event \<Rightarrow> pool" where
  "pool_step totalFiles s (Resume w) =
     (if w < length (workers s) \<and> workers s ! w = AtLoopHead then worker_pass totalFiles w s else s)"
| "pool_step totalFiles s (Settle w out) =
     (if w < length (workers s) then
        (case workers s ! w of
           Awaiting i \<Rightarrow> processSingleFile_settle w i out s
         | _ \<Rightarrow> s)
      else s)"
| "pool_step totalFiles s CancelAll = s\<lparr>ctx_cancelled := True\<rparr>"
| "pool_step totalFiles s (CancelFile i) =
     (if i \<ge> totalFiles \<or> fileStatus s i = Complete \<or> fileStatus s i = SkippedSt then s
      else s\<lparr>cancelledFiles := insert i (cancelledFiles s),
             fileStatus := (fileStatus s)(i := CancelledSt)\<rparr>)"

definition pool_init :: "nat \<Rightarrow> pool" where
  "pool_init totalFiles =
     \<lparr>ctx_cancelled = False, cancelledFiles = {}, fileStatus = (\<lambda>i. Queued),
      nextFileIndex = 0, completedFiles = 0, uploadedFilesCount = 0, skippedFilesCount = 0,
      failedFilesCount = 0, cancelledFilesCount = 0, reportEntries = [],
      workers = replicate (min MAX_PARALLEL_UPLOADS totalFiles) AtLoopHead\<rparr>"

definition pool_run :: "nat \<Rightarrow> pool_event list \<Rightarrow> pool" where
  "pool_run totalFiles evs = foldl (pool_step totalFiles) (pool_init totalFiles) evs"

text \<open>
  What \<open>uploadProjectWithConcurrency\<close> returns once \<open>Promise.all(workers)\<close> has resolved:
  \<open>{ success: false, cancelled: true }\<close> after a global cancellation, else the counters.
  The result is \<open>None\<close> for a sequence of events that leaves a worker unfinished.
\<close>

datatype push_result =
    PushCancelled
  | PushDone nat nat nat nat nat "(nat \<times> report_status) list"

definition uploadProjectWithConcurrency :: "nat \<Rightarrow> pool_event list \<Rightarrow> push_result option" where
  "uploadProjectWithConcurrency totalFiles evs =
     (let s = pool_run totalFiles evs in
      if list_all (\<lambda>w. w = Returned) (workers s) then
        Some (if ctx_cancelled s then PushCancelled
              else PushDone (uploadedFilesCount s) (skippedFilesCount s) (failedFilesCount s)
                     (cancelledFilesCount s) totalFiles (reportEntries s))
      else None)"

text \<open>The number of entries of the report with a given status.\<close>

definition count_status :: "report_status \<Rightarrow> (nat \<times> report_status) list \<Rightarrow> nat" where
  "count_status st entries = length (filter (\<lambda>en. snd en = st) entries)"

text \<open>
  The files whose upload some worker awaits, and the condition that no two workers await
  the same file.
\<close>

definition awaited :: "worker list \<Rightarrow> nat set" where
  "awaited ws = {i. \<exists>w < length ws. ws ! w = Awaiting i}"

definition one_each :: "worker list \<Rightarrow> bool" where
  "one_each ws = (\<forall>v w i. v < length ws \<and> w < length ws \<and>
          ws ! v = Awaiting i \<and> ws ! w = Awaiting i \<longrightarrow> v = w)"

definition in_flight :: "pool \<Rightarrow> nat set" where
  "in_flight s = awaited (workers s)"

text \<open>
  The invariant of the pool: the report has one entry per file that was taken and is not
  in flight, the counters count the entries of the report, and a worker that returned
  without a cancellation found the queue empty.
\<close>

definition pool_inv :: "nat \<Rightarrow> pool \<Rightarrow> bool" where
  "pool_inv totalFiles s =
     (distinct (map fst (reportEntries s)) \<and>
      set (map fst (reportEntries s)) \<inter> in_flight s = {} \<and>
      set (map fst (reportEntries s)) \<union> in_flight s = {0..<min (nextFileIndex s) totalFiles} \<and>
      one_each (workers s) \<and>
      uploadedFilesCount s = count_status RUploaded (reportEntries s) \<and>
      skippedFilesCount s = count_status RSkipped (reportEntries s) \<and>
      failedFilesCount s = count_status RFailed (reportEntries s) \<and>
      cancelledFilesCount s = count_status RCancelled (reportEntries s) \<and>
      completedFiles s = length (reportEntries s) \<and>
      length (workers s) = min MAX_PARALLEL_UPLOADS totalFiles \<and>
      (\<not> ctx_cancelled s \<and> Returned \<in> set (workers s) \<longrightarrow> totalFiles \<le> nextFileIndex s))"

subsection \<open>Sample runs of the pool\<close>

text \<open>
  Four files, three workers: one upload finishes, then everything is cancelled; the two
  uploads in flight abort and the fourth file is never taken. And three files, of which
  the second is cancelled during its upload and the third before it starts.
\<close>

definition cancelled_push :: "pool_event list" where
  "cancelled_push =
     [Resume 0, Resume 1, Resume 2,
      Settle 0 (Inr \<lparr>res_id = Some ''file-1'', skipped = False, reason = None\<rparr>),
      CancelAll,
      Settle 1 (Inl (createUploadError UploadAborted None False None)),
      Settle 2 (Inl (createUploadError UploadAborted None False None)),
      Resume 0, Resume 1, Resume 2]"

definition per_file_cancel_push :: "pool_event list" where
  "per_file_cancel_push =
     [Resume 0, Resume 1, CancelFile 1, CancelFile 2,
      Settle 1 (Inl (createUploadError UploadAborted None False None)),
      Settle 0 (Inr \<lparr>res_id = Some ''file-1'', skipped = False, reason = None\<rparr>),
      Resume 0, Resume 1, Resume 0, Resume 2]"





section \<open>Pulling: the project explorer\<close>

subsection \<open>Strings and paths\<close>

definition bslash :: char where
  "bslash = CHR 0x5C"

text \<open>
  An upper-case letter (code 65 to 90) becomes the lower-case one, 32 higher: bit 5 is
  set.
\<close>

definition lower_char :: "char \<Rightarrow> char" where
  "lower_char c =
     (if 65 \<le> (of_char c :: nat) \<and> (of_char c :: nat) \<le> 90
      then (case c of Char b0 b1 b2 b3 b4 b5 b6 b7 \<Rightarrow> Char b0 b1 b2 b3 b4 True b6 b7)
      else c)"

text \<open>\<open>toLowerCase\<close>, on the letters A to Z.\<close>

definition toLowerCase :: "string \<Rightarrow> string" where
  "toLowerCase s = map lower_char s"

definition endsWith :: "string \<Rightarrow> string \<Rightarrow> bool" where
  "endsWith s suf = (length suf \<le> length s \<and> drop (length s - length suf) s = suf)"

definition isPrproj :: "string \<Rightarrow> bool" where
  "isPrproj name = endsWith name ''.prproj''"

text \<open>
  The two \<open>replace\<close> calls on paths: every backslash becomes two (the \<open>safePath\<close> of the
  callers), and every slash becomes a backslash.
\<close>

definition doubleBackslashes :: "string \<Rightarrow> string" where
  "doubleBackslashes s = concat (map (\<lambda>c. if c = bslash then [bslash, bslash] else [c]) s)"

definition slashesToBackslashes :: "string \<Rightarrow> string" where
  "slashesToBackslashes s = map (\<lambda>c. if c = CHR ''/'' then bslash else c) s"

text \<open>
  The file system names a file by its path up to the separators: a slash is a backslash,
  and a run of separators is one.
\<close>

fun collapse :: "string \<Rightarrow> string" where
  "collapse [] = []"
| "collapse [c] = [c]"
| "collapse (c # d # cs) =
     (if c = bslash \<and> d = bslash then collapse (d # cs) else c # collapse (d # cs))"

definition normPath :: "string \<Rightarrow> string" where
  "normPath p = collapse (slashesToBackslashes p)"

text \<open>\<open>path.join(dir, name)\<close>, for a name without separators.\<close>

definition joinPath :: "string \<Rightarrow> string \<Rightarrow> string" where
  "joinPath dir name = normPath (dir @ [bslash] @ name)"

type_synonym disk = "string \<rightharpoonup> nat list"

definition existsSync :: "disk \<Rightarrow> string \<Rightarrow> bool" where
  "existsSync d p = (d (normPath p) \<noteq> None)"

definition writeFileSync :: "disk \<Rightarrow> string \<Rightarrow> nat list \<Rightarrow> disk" where
  "writeFileSync d p content = d(normPath p \<mapsto> content)"

subsection \<open>Patching the project document\<close>







text \<open>
  \<open>pe_fs\<close>: \<open>require('fs')\<close> is there. \<open>pe_download\<close>: the body of the file with this id,
  \<open>None\<close> when the request does not end with status 200. \<open>pe_writable\<close>: whether
  \<open>writeFileSync\<close> to the path returns. \<open>pe_gunzip\<close>, \<open>pe_gzip\<close>: \<open>zlib\<close>, \<open>None\<close> when
  \<open>gunzipSync\<close> throws. \<open>pe_matches\<close>: the matches of \<open>pathPattern\<close> in a text.
  \<open>pe_readdir\<close>: the tree below a folder.
\<close>










subsection \<open>Pulling one file, pulling all\<close>

datatype pull_event = TransferStart string | TransferEnd string

record drive_entry =
  de_id :: string
  de_name :: string
  de_size :: "int option"


text \<open>\<open>parseInt(file.size) || 0\<close>.\<close>

definition sizeOrZero :: "int option \<Rightarrow> int" where
  "sizeOrZero sz = (case sz of None \<Rightarrow> 0 | Some n \<Rightarrow> n)"





text \<open>The names of the files whose transfer a log records, in order.\<close>

fun started :: "pull_event list \<Rightarrow> string list" where
  "started [] = []"
| "started (TransferStart n # evs) = n # started evs"
| "started (TransferEnd n # evs) = started evs"

text \<open>A log in which every transfer ends before the next one starts.\<close>

fun one_at_a_time :: "pull_event list \<Rightarrow> bool" where
  "one_at_a_time [] = True"
| "one_at_a_time (TransferStart n # TransferEnd m # evs) = (n = m \<and> one_at_a_time evs)"
| "one_at_a_time evs = False"

section \<open>Pulling: the download orchestrator\<close>

record dl_env =
  dl_require :: bool
  dl_stat_throws :: "string \<Rightarrow> bool"
  dl_cep_size :: "string \<Rightarrow> int option"
  dl_downloadFile :: "string \<Rightarrow> nat list option"
  dl_write_err :: "string \<Rightarrow> bool"

text \<open>
  \<open>dl_require\<close>: \<open>typeof require !== 'undefined'\<close>. \<open>dl_stat_throws\<close>: the Node calls
  \<open>existsSync\<close> or \<open>statSync\<close> throw for this path. \<open>dl_cep_size\<close>: \<open>localStat.data.size\<close>
  of the CEP fallback, \<open>None\<close> when it is missing. \<open>dl_downloadFile\<close>: the content that
  \<open>GoogleDrive.downloadFile(id)\<close> resolves to, \<open>None\<close> when it rejects. \<open>dl_write_err\<close>:
  \<open>cep.fs.writeFile\<close> reports an error for this path.
\<close>

record conflict =
  c_name :: string
  c_localPath :: string
  c_driveFile :: drive_entry
  c_localSize :: int
  c_driveSize :: int

record download_state =
  ds_completedFiles :: nat
  ds_downloadedFiles :: nat
  ds_skippedFiles :: nat
  ds_failedFiles :: nat
  ds_conflicts :: "conflict list"
  ds_downloadedBytes :: int
  ds_downloadedList :: "(string \<times> string \<times> int) list"
  ds_disk :: disk
  ds_trace :: "pull_event list"

text \<open>
  The local size as the loop measures it: with Node, the size of the file, and 0 when the
  calls throw or the file is gone; without Node, the size that CEP reports, or 0.
\<close>

definition localSizeOf :: "dl_env \<Rightarrow> disk \<Rightarrow> string \<Rightarrow> int" where
  "localSizeOf e d targetPath =
     (if dl_require e then
        (if dl_stat_throws e targetPath then 0
         else (case d (normPath targetPath) of Some c \<Rightarrow> int (length c) | None \<Rightarrow> 0))
      else
        (if existsSync d targetPath
         then (case dl_cep_size e targetPath of Some n \<Rightarrow> n | None \<Rightarrow> 0)
         else 0))"

text \<open>
  The \<open>for\<close> loop of \<open>downloadProjectWithProgress\<close>. \<open>cancelled\<close> is
  \<open>downloadState.cancelled\<close>, set by the cancel button while the loop awaits; the model
  reads it as a function of the log of transfers so far.
\<close>

fun downloadLoop ::
  "dl_env \<Rightarrow> (pull_event list \<Rightarrow> bool) \<Rightarrow> string \<Rightarrow> drive_entry list \<Rightarrow> download_state
     \<Rightarrow> download_state" where
  "downloadLoop e cancelled projectPath [] s = s"
| "downloadLoop e cancelled projectPath (driveFile # rest) s =
     (let targetPath = projectPath @ [bslash] @ de_name driveFile;
          fileSize = sizeOrZero (de_size driveFile)
      in if cancelled (ds_trace s) then s
         else if existsSync (ds_disk s) targetPath then
           (let localSize = localSizeOf e (ds_disk s) targetPath;
                driveSize = sizeOrZero (de_size driveFile)
            in if localSize = driveSize then
                 downloadLoop e cancelled projectPath rest
                   (s\<lparr>ds_skippedFiles := ds_skippedFiles s + 1,
                      ds_completedFiles := ds_completedFiles s + 1,
                      ds_downloadedBytes := ds_downloadedBytes s + fileSize\<rparr>)
               else
                 downloadLoop e cancelled projectPath rest
                   (s\<lparr>ds_conflicts := ds_conflicts s @
                        [\<lparr>c_name = de_name driveFile, c_localPath = targetPath,
                          c_driveFile = driveFile, c_localSize = localSize,
                          c_driveSize = driveSize\<rparr>],
                      ds_completedFiles := ds_completedFiles s + 1\<rparr>))
         else
           (case dl_downloadFile e (de_id driveFile) of
              None \<Rightarrow>
                downloadLoop e cancelled projectPath rest
                  (s\<lparr>ds_failedFiles := ds_failedFiles s + 1,
                     ds_completedFiles := ds_completedFiles s + 1,
                     ds_trace := ds_trace s @
                       [TransferStart (de_name driveFile), TransferEnd (de_name driveFile)]\<rparr>)
            | Some fileContent \<Rightarrow>
                if cancelled (ds_trace s @ [TransferStart (de_name driveFile)])
                then s\<lparr>ds_trace := ds_trace s @
                        [TransferStart (de_name driveFile), TransferEnd (de_name driveFile)]\<rparr>
                else if dl_write_err e targetPath then
                  downloadLoop e cancelled projectPath rest
                    (s\<lparr>ds_failedFiles := ds_failedFiles s + 1,
                       ds_completedFiles := ds_completedFiles s + 1,
                       ds_trace := ds_trace s @
                         [TransferStart (de_name driveFile), TransferEnd (de_name driveFile)]\<rparr>)
                else
                  downloadLoop e cancelled projectPath rest
                    (s\<lparr>ds_disk := writeFileSync (ds_disk s) targetPath fileContent,
                       ds_downloadedList := ds_downloadedList s @
                         [(de_name driveFile, targetPath, fileSize)],
                       ds_downloadedFiles := ds_downloadedFiles s + 1,
                       ds_downloadedBytes := ds_downloadedBytes s + fileSize,
                       ds_completedFiles := ds_completedFiles s + 1,
                       ds_trace := ds_trace s @
                         [TransferStart (de_name driveFile), TransferEnd (de_name driveFile)]\<rparr>)))"

datatype download_result =
    DownloadFailed string
  | DownloadDone nat nat nat "conflict list" string

text \<open>
  \<open>downloadProjectWithProgress(projectName, projectFolderId, targetFolder,
  showProgressModal, updateInPlace)\<close>: \<open>listing\<close> is what
  \<open>GoogleDrive.listFilesInFolder(projectFolderId)\<close> resolves to, or the \<open>message\<close> of the
  error it rejects with, which the function returns as \<open>error\<close>. The result is the
  returned object together with the final state (disk and log). The disk of the model
  holds files only: the \<open>makedir\<close> of the project folder is not part of it.
\<close>

definition downloadProjectWithProgress ::
  "dl_env \<Rightarrow> (pull_event list \<Rightarrow> bool) \<Rightarrow> string \<Rightarrow> string + drive_entry list \<Rightarrow> string \<Rightarrow> bool
     \<Rightarrow> disk \<Rightarrow> download_result \<times> download_state" where
  "downloadProjectWithProgress e cancelled projectName listing targetFolder updateInPlace d =
     (let projectPath = (if updateInPlace then targetFolder else targetFolder @ [bslash] @ projectName);
          s0 = \<lparr>ds_completedFiles = 0, ds_downloadedFiles = 0, ds_skippedFiles = 0,
                ds_failedFiles = 0, ds_conflicts = [], ds_downloadedBytes = 0,
                ds_downloadedList = [], ds_disk = d, ds_trace = []\<rparr>
      in case listing of
           Inl message \<Rightarrow> (DownloadFailed message, s0)
         | Inr driveFiles \<Rightarrow>
             if driveFiles = [] then (DownloadFailed ''No files found in project folder'', s0)
             else
               (let s = downloadLoop e cancelled projectPath driveFiles s0
                in (DownloadDone (length (ds_downloadedList s)) (ds_skippedFiles s)
                      (ds_failedFiles s) (ds_conflicts s) projectPath, s)))"

subsection \<open>Vocabulary and sample runs for pulls\<close>

definition blocks :: "string list \<Rightarrow> pull_event list" where
  "blocks ns = concat (map (\<lambda>n. [TransferStart n, TransferEnd n]) ns)"


definition win :: "string list \<Rightarrow> string" where
  "win parts = foldr (\<lambda>p acc. if acc = [] then p else p @ [bslash] @ acc) parts []"

definition demo_dl_env :: dl_env where
  "demo_dl_env =
     \<lparr>dl_require = True, dl_stat_throws = (\<lambda>p. False), dl_cep_size = (\<lambda>p. None),
      dl_downloadFile = (\<lambda>i. if i = ''id-p'' then Some [1, 2, 3, 4, 5] else Some [7, 8, 9]),
      dl_write_err = (\<lambda>p. False)\<rparr>"

definition demo_listing :: "drive_entry list" where
  "demo_listing =
     [\<lparr>de_id = ''id-p'', de_name = ''Promo.prproj'', de_size = Some 5\<rparr>,
      \<lparr>de_id = ''id-a'', de_name = ''a.mov'', de_size = Some 3\<rparr>,
      \<lparr>de_id = ''id-b'', de_name = ''b.wav'', de_size = Some 3\<rparr>,
      \<lparr>de_id = ''id-c'', de_name = ''c.png'', de_size = Some 3\<rparr>]"

text \<open>Locally, \<open>b.wav\<close> has the remote size and \<open>c.png\<close> has another one.\<close>

definition demo_disk :: disk where
  "demo_disk =
     [win [''C:'', ''Sync'', ''Promo'', ''b.wav''] \<mapsto> [0, 0, 0],
      win [''C:'', ''Sync'', ''Promo'', ''c.png''] \<mapsto> [0, 0]]"





text \<open>The state in which the loop starts on \<open>demo_disk\<close>.\<close>

definition demo_dl_state :: download_state where
  "demo_dl_state =
     \<lparr>ds_completedFiles = 0, ds_downloadedFiles = 0, ds_skippedFiles = 0,
      ds_failedFiles = 0, ds_conflicts = [], ds_downloadedBytes = 0,
      ds_downloadedList = [], ds_disk = demo_disk, ds_trace = []\<rparr>"

text \<open>
  The cancel button is pressed while the first file is being downloaded: the flag is set
  as soon as a transfer has started.
\<close>

definition demo_cancel_during_first :: "pull_event list \<Rightarrow> bool" where
  "demo_cancel_during_first tr = (tr \<noteq> [])"


section \<open>Lock release\<close>

text \<open>
  C9. A release succeeds only for the holder. Whenever the unlock handler answers
  \<open>success: true\<close>, the key is known and no lock row of the project is held by a different
  editor; and a request from a known key whose editor name differs from \<open>locked_by\<close> is
  answered \<open>{success: false, error: 'You do not own this lock'}\<close> with the database, and so
  the lock row, exactly as before.
\<close>

theorem unlock_only_by_holder:
  "(success (fst (unlock_project d apiKey projectName)) = Some True \<longrightarrow>
      (\<exists>key. api_keys d apiKey = Some key \<and>
         (\<forall>lck. project_locks d projectName = Some lck \<longrightarrow> locked_by lck = editor_name key)))
   \<and>
   (\<forall>key lck. api_keys d apiKey = Some key \<and> project_locks d projectName = Some lck \<and>
        locked_by lck \<noteq> editor_name key \<longrightarrow>
        success (fst (unlock_project d apiKey projectName)) = Some False \<and>
        http_status (fst (unlock_project d apiKey projectName)) = 200 \<and>
        error (fst (unlock_project d apiKey projectName)) = Some ''You do not own this lock'' \<and>
        snd (unlock_project d apiKey projectName) = d \<and>
        project_locks (snd (unlock_project d apiKey projectName)) projectName = Some lck)"
  by (auto simp: unlock_project_def json_error_def json_success_def split: option.splits)

text \<open>
  Alice takes the lock on "Promo_Cut"; Bob's release is refused and Alice still holds it;
  Alice's own release succeeds.
\<close>

theorem unlock_only_by_holder_witness:
  "(let d1 = snd (lock_project demo_db ''key-A'' ''Promo_Cut'' ''t0'');
        rB = unlock_project d1 ''key-B'' ''Promo_Cut'';
        rA = unlock_project d1 ''key-A'' ''Promo_Cut''
    in api_keys d1 ''key-B'' \<noteq> None \<and>
       map_option locked_by (project_locks d1 ''Promo_Cut'') = Some ''Alice'' \<and>
       success (fst rB) = Some False \<and> snd rB = d1 \<and>
       map_option locked_by (project_locks (snd rB) ''Promo_Cut'') = Some ''Alice'' \<and>
       success (fst rA) = Some True \<and> project_locks (snd rA) ''Promo_Cut'' = None)"
proof -
  define d1 where "d1 = snd (lock_project demo_db ''key-A'' ''Promo_Cut'' ''t0'')"
  have kB: "api_keys d1 ''key-B'' =
      Some \<lparr>editor_name = ''Bob'', expires_at = ''2099-01-01'', revoked = False\<rparr>"
    by (simp add: d1_def lock_project_def demo_db_def json_success_def)
  have kA: "api_keys d1 ''key-A'' =
      Some \<lparr>editor_name = ''Alice'', expires_at = ''2099-01-01'', revoked = False\<rparr>"
    by (simp add: d1_def lock_project_def demo_db_def json_success_def)
  have lk: "project_locks d1 ''Promo_Cut'' = Some \<lparr>locked_by = ''Alice'', locked_at = ''t0''\<rparr>"
    by (simp add: d1_def lock_project_def demo_db_def json_success_def)
  have rB: "success (fst (unlock_project d1 ''key-B'' ''Promo_Cut'')) = Some False \<and>
            snd (unlock_project d1 ''key-B'' ''Promo_Cut'') = d1"
    using unlock_only_by_holder [of d1 "''key-B''" "''Promo_Cut''"] kB lk by simp
  have rA: "success (fst (unlock_project d1 ''key-A'' ''Promo_Cut'')) = Some True \<and>
            project_locks (snd (unlock_project d1 ''key-A'' ''Promo_Cut'')) ''Promo_Cut'' = None"
    by (simp add: unlock_project_def kA lk json_success_def)
  show ?thesis
    unfolding Let_def d1_def [symmetric] using kB lk rB rA by simp
qed


section \<open>Properties of the upload primitive\<close>

subsection \<open>Retry loop\<close>



lemma shouldRetry_not_accepted: "shouldRetryStatus st \<Longrightarrow> \<not> is2xx st \<and> st \<noteq> 308"
  by (auto simp: shouldRetryStatus_def is2xx_def)



lemma retryLoop_throw:
  "attempt \<le> DRIVE_MAX_RETRIES \<Longrightarrow> run h = (Inl err, h') \<Longrightarrow>
   \<not> err_retriable err \<or> attempt = DRIVE_MAX_RETRIES \<Longrightarrow>
   retryLoop e run attempt h = (Some (Inl err), h')"
  by (subst retryLoop.simps) auto

lemma retryLoop_retry:
  "attempt < DRIVE_MAX_RETRIES \<Longrightarrow> run h = (Inl err, h') \<Longrightarrow> err_retriable err \<Longrightarrow>
   retryLoop e run attempt h =
     retryLoop e run (attempt + 1)
       (h' @ [Slept (buildRetryDelayMs attempt (err_retryAfterMs err) (random e h'))])"
  by (subst retryLoop.simps) (auto simp: Let_def)

lemma retryLoop_return:
  "attempt \<le> DRIVE_MAX_RETRIES \<Longrightarrow> run h = (Inr r, h') \<Longrightarrow>
   retryLoop e run attempt h = (Some (Inr r), h')"
  by (subst retryLoop.simps) auto

lemma delay_explicit: "ms > 0 \<Longrightarrow> buildRetryDelayMs attempt (Some ms) rnd = ms"
  by (simp add: buildRetryDelayMs_def)





subsection \<open>Accepted chunks\<close>

lemma accepted_chunks_append [simp]:
  "accepted_chunks (a @ b) = accepted_chunks a @ accepted_chunks b"
  by (simp add: accepted_chunks_def List.map_filter_def)

lemma accepted_chunks_Nil [simp]: "accepted_chunks [] = []"
  by (simp add: accepted_chunks_def map_filter_simps)

lemma accepted_chunks_single [simp]: "accepted_chunks [ev] = (case accepted_chunk ev of None \<Rightarrow> [] | Some c \<Rightarrow> [c])"
  by (cases "accepted_chunk ev") (auto simp: accepted_chunks_def List.map_filter_def)

lemma put_ok:
  "putResumableChunk e u n s en t h = (Inr cr, h') \<Longrightarrow>
     accepted_chunks h' = accepted_chunks h @ [(s, en, t, n)] \<and>
     (chunk_done cr \<longrightarrow> (\<exists>r. net e h (PutChunk u s en t n) = Response r \<and> is2xx (status r)))"
  by (auto simp: putResumableChunk_def send_def Let_def
      split: net_outcome.splits if_splits)

lemma put_err:
  "putResumableChunk e u n s en t h = (Inl err, h') \<Longrightarrow> accepted_chunks h' = accepted_chunks h"
  by (auto simp: putResumableChunk_def send_def Let_def
      split: net_outcome.splits if_splits)

lemma retry_put:
  "retryLoop e (putResumableChunk e u n s en t) attempt h = (res, h') \<Longrightarrow>
   (case res of
      Some (Inr cr) \<Rightarrow>
        accepted_chunks h' = accepted_chunks h @ [(s, en, t, n)] \<and>
        (chunk_done cr \<longrightarrow> (\<exists>h0 r. net e h0 (PutChunk u s en t n) = Response r \<and> is2xx (status r)))
    | _ \<Rightarrow> accepted_chunks h' = accepted_chunks h)"
proof (induction e "putResumableChunk e u n s en t" attempt h arbitrary: res h' rule: retryLoop.induct)
  case (1 e attempt hist)
  show ?case
  proof (cases "attempt \<le> DRIVE_MAX_RETRIES")
    case False
    then show ?thesis using "1.prems" by (subst (asm) retryLoop.simps) auto
  next
    case True
    obtain r h1 where rh: "putResumableChunk e u n s en t hist = (r, h1)"
      by (cases "putResumableChunk e u n s en t hist")
    show ?thesis
    proof (cases r)
      case (Inr cr)
      then have "res = Some (Inr cr)" "h' = h1"
        using "1.prems" True rh by (subst (asm) retryLoop.simps, simp)+
      then show ?thesis using put_ok[OF rh[unfolded Inr]] by auto
    next
      case (Inl err)
      note acc = put_err[OF rh[unfolded Inl]]
      show ?thesis
      proof (cases "attempt \<ge> DRIVE_MAX_RETRIES \<or> \<not> err_retriable err")
        case True
        then have "res = Some (Inl err)" "h' = h1"
          using "1.prems" \<open>attempt \<le> DRIVE_MAX_RETRIES\<close> rh Inl
          by (subst (asm) retryLoop.simps, auto)+
        then show ?thesis using acc by simp
      next
        case False
        let ?w = "buildRetryDelayMs attempt (err_retryAfterMs err) (random e h1)"
        have eq: "retryLoop e (putResumableChunk e u n s en t) (attempt + 1) (h1 @ [Slept ?w]) = (res, h')"
          using "1.prems" False rh Inl retryLoop_retry[of attempt "putResumableChunk e u n s en t" hist err h1 e]
          by auto
        have "case res of
            Some (Inr cr) \<Rightarrow>
              accepted_chunks h' = accepted_chunks (h1 @ [Slept ?w]) @ [(s, en, t, n)] \<and>
              (chunk_done cr \<longrightarrow> (\<exists>h0 r. net e h0 (PutChunk u s en t n) = Response r \<and> is2xx (status r)))
          | _ \<Rightarrow> accepted_chunks h' = accepted_chunks (h1 @ [Slept ?w])"
          using "1.hyps"[OF \<open>attempt \<le> DRIVE_MAX_RETRIES\<close> rh[symmetric] Inl False refl eq] .
        then show ?thesis using acc by (auto split: option.splits sum.splits)
      qed
    qed
  qed
qed


lemma chunkLoop_partition:
  "full_reads e p S \<Longrightarrow> terminal_only_at_end e \<Longrightarrow> c \<le> S \<Longrightarrow>
   chunkLoop e p u f S c h = (Inr res, h') \<Longrightarrow>
   \<exists>cs. accepted_chunks h' = accepted_chunks h @ cs \<and> partitions S c cs"
proof (induction e p u f S c h rule: chunkLoop.induct)
  case (1 e p u f S c h)
  note fr = "1.prems"(1) and toe = "1.prems"(2) and cS = "1.prems"(3) and run = "1.prems"(4)
  show ?case
  proof (cases "c < S")
    case False
    then have "h' = h" "c = S" using run cS by (subst (asm) chunkLoop.simps, simp)+
    then show ?thesis by simp
  next
    case True
    define k where "k = min DRIVE_CHUNK_SIZE (S - c)"
    have kpos: "0 < k" using True by (simp add: k_def DRIVE_CHUNK_SIZE_def)
    have kle: "c + k \<le> S" using True by (simp add: k_def)
    have rd: "readSync e p c k = Some k" using fr kle by (simp add: full_reads_def)
    obtain r h1 where rl: "retryLoop e (putResumableChunk e u k c (c + k - 1) S) 1 h = (r, h1)"
      by (cases "retryLoop e (putResumableChunk e u k c (c + k - 1) S) 1 h")
    note rp = retry_put[OF rl]
    have unfold: "chunkLoop e p u f S c h =
        (case r of
           Some (Inl err) \<Rightarrow> (Inl err, h1)
         | None \<Rightarrow> (Inl (createUploadError ChunkNotUploaded None False None), h1)
         | Some (Inr chunkResult) \<Rightarrow>
             if chunk_done chunkResult
             then (Inr \<lparr>res_id = or_else (chunk_id chunkResult) f, skipped = False, reason = None\<rparr>, h1)
             else chunkLoop e p u f S (c + k) h1)"
      using True kpos rd rl
      by (subst chunkLoop.simps) (simp add: Let_def k_def[symmetric] split: option.splits sum.splits)
    show ?thesis
    proof (cases r)
      case None
      then show ?thesis using run unfold by simp
    next
      case (Some a)
      show ?thesis
      proof (cases a)
        case (Inl err)
        then show ?thesis using run unfold Some by simp
      next
        case (Inr cr)
        have acc: "accepted_chunks h1 = accepted_chunks h @ [(c, c + k - 1, S, k)]"
          and dn: "chunk_done cr \<longrightarrow>
              (\<exists>h0 r. net e h0 (PutChunk u c (c + k - 1) S k) = Response r \<and> is2xx (status r))"
          using rp Some Inr by auto
        have kC: "k \<le> DRIVE_CHUNK_SIZE" by (simp add: k_def)
        show ?thesis
        proof (cases "chunk_done cr")
          case True
          then have "h' = h1" using run unfold Some Inr by simp
          moreover have "c + k - 1 + 1 = S" using dn True toe by (auto simp: terminal_only_at_end_def)
          ultimately show ?thesis using acc kpos kC \<open>c < S\<close> by auto
        next
          case False
          then have rec: "chunkLoop e p u f S (c + k) h1 = (Inr res, h')"
            using run unfold Some Inr by simp
          have "\<exists>cs. accepted_chunks h' = accepted_chunks h1 @ cs \<and> partitions S (c + k) cs"
            using "1.IH"[OF True k_def rd _ refl refl rl[symmetric] Some Inr False fr toe kle rec]
              kpos by simp
          then obtain cs where cs: "accepted_chunks h' = accepted_chunks h1 @ cs" "partitions S (c + k) cs"
            by blast
          have full: "cs \<noteq> [] \<longrightarrow> k = DRIVE_CHUNK_SIZE"
          proof
            assume "cs \<noteq> []"
            then obtain s1 e1 t1 n1 cs' where "cs = (s1, e1, t1, n1) # cs'"
              by (cases cs) auto
            then have "c + k < S" using cs(2) by auto
            then show "k = DRIVE_CHUNK_SIZE" by (simp add: k_def min_def split: if_splits)
          qed
          have "c \<le> c + k - 1" "c + k - 1 < S" "c + k - 1 + 1 = c + k" "k = c + k - 1 + 1 - c"
            using kpos kle by arith+
          then have "partitions S c ((c, c + k - 1, S, k) # cs)"
            using cs(2) kC full by simp
          then show ?thesis using cs(1) acc by simp
        qed
      qed
    qed
  qed
qed



lemma partitions_starts: "partitions S c cs \<Longrightarrow> \<forall>b \<in> set cs. c \<le> fst b"
proof (induction cs arbitrary: c)
  case Nil
  then show ?case by simp
next
  case (Cons a cs)
  obtain s en t n where a: "a = (s, en, t, n)" by (cases a) auto
  have p: "s = c" "s \<le> en" "partitions S (en + 1) cs" using Cons.prems a by auto
  from Cons.IH[OF p(3)] have "\<forall>b\<in>set cs. en + 1 \<le> fst b" .
  then show ?case using p a by auto
qed

lemma partitions_disjoint: "partitions S c cs \<Longrightarrow> sorted_wrt before cs"
proof (induction cs arbitrary: c)
  case Nil
  then show ?case by simp
next
  case (Cons a cs)
  obtain s en t n where a: "a = (s, en, t, n)" by (cases a) auto
  have p: "partitions S (en + 1) cs" using Cons.prems a by auto
  have "\<forall>b\<in>set cs. before a b"
    using partitions_starts[OF p] a by (auto simp: before_def)
  then show ?case using Cons.IH[OF p] by simp
qed

subsection \<open>History extension\<close>

lemma extends_with_refl [simp]: "extends_with P h h"
  by (simp add: extends_with_def)

lemma extends_with_trans:
  "extends_with P h h1 \<Longrightarrow> extends_with P h1 h2 \<Longrightarrow> extends_with P h h2"
  by (auto simp: extends_with_def)

lemma extends_with_snoc: "P ev \<Longrightarrow> extends_with P h (h @ [ev])"
  by (simp add: extends_with_def)

lemma extends_with_snoc2: "extends_with P h h1 \<Longrightarrow> P ev \<Longrightarrow> extends_with P h (h1 @ [ev])"
  by (auto simp: extends_with_def)

lemma send_extends: "P (Sent req (net e h req)) \<Longrightarrow> extends_with P h (snd (send e req h))"
  by (simp add: send_def Let_def extends_with_snoc)

lemma retryLoop_extends:
  "(\<And>h. extends_with P h (snd (run h))) \<Longrightarrow> (\<And>w. P (Slept w)) \<Longrightarrow>
   extends_with P h (snd (retryLoop e run attempt h))"
proof (induction e run attempt h rule: retryLoop.induct)
  case (1 e run attempt hist)
  note step = "1.prems"(1) and sl = "1.prems"(2)
  show ?case
  proof (cases "attempt \<le> DRIVE_MAX_RETRIES")
    case False
    then show ?thesis by (subst retryLoop.simps) simp
  next
    case True
    obtain r h' where rh: "run hist = (r, h')" by (cases "run hist")
    have b: "extends_with P hist h'" using step[of hist] unfolding rh by simp
    show ?thesis
    proof (cases r)
      case (Inr x)
      then show ?thesis using True rh b by (subst retryLoop.simps) auto
    next
      case (Inl err)
      show ?thesis
      proof (cases "attempt \<ge> DRIVE_MAX_RETRIES \<or> \<not> err_retriable err")
        case True
        then show ?thesis using \<open>attempt \<le> DRIVE_MAX_RETRIES\<close> rh b Inl
          by (subst retryLoop.simps) auto
      next
        case False
        let ?w = "buildRetryDelayMs attempt (err_retryAfterMs err) (random e h')"
        have IH: "extends_with P (h' @ [Slept ?w]) (snd (retryLoop e run (attempt + 1) (h' @ [Slept ?w])))"
          using "1.IH"[OF \<open>attempt \<le> DRIVE_MAX_RETRIES\<close> rh[symmetric] Inl False refl step sl] .
        have "retryLoop e run attempt hist = retryLoop e run (attempt + 1) (h' @ [Slept ?w])"
          using False rh Inl by (intro retryLoop_retry) auto
        then show ?thesis
          using IH extends_with_trans[OF extends_with_snoc2[OF b sl[of ?w]]] by simp
      qed
    qed
  qed
qed

lemma put_extends:
  "(\<And>out. P (Sent (PutChunk u s en t n) out)) \<Longrightarrow>
   extends_with P h (snd (putResumableChunk e u n s en t h))"
  by (auto simp: putResumableChunk_def send_def Let_def extends_with_snoc
      split: net_outcome.splits)

lemma simple_extends:
  "(\<And>out. P (Sent (PatchMedia f m c) out)) \<Longrightarrow>
   extends_with P h (snd (simpleUploadAttempt e c m f h))"
  by (auto simp: simpleUploadAttempt_def send_def Let_def extends_with_snoc
      split: net_outcome.splits body.splits)

lemma session_extends:
  "(\<And>out. P (Sent (StartResumable f m t) out)) \<Longrightarrow>
   extends_with P h (snd (createResumableSession e m f t h))"
  by (auto simp: createResumableSession_def send_def Let_def extends_with_snoc
      split: net_outcome.splits option.splits)

lemma find_extends:
  "(\<And>out. P (Sent (SearchFile nm fo) out)) \<Longrightarrow>
   extends_with P h (snd (findExistingDriveFile e nm fo h))"
  by (auto simp: findExistingDriveFile_def send_def Let_def extends_with_snoc
      split: net_outcome.splits body.splits list.splits)

lemma ensure_extends:
  "(\<And>out. P (Sent (CreateFile nm fo) out)) \<Longrightarrow>
   extends_with P h (snd (ensureDriveFileMetadata e nm fo ex h))"
  by (auto simp: ensureDriveFileMetadata_def send_def Let_def extends_with_snoc
      split: net_outcome.splits body.splits)

lemma chunkLoop_extends:
  "(\<And>u s en t n out. P (Sent (PutChunk u s en t n) out)) \<Longrightarrow> (\<And>w. P (Slept w)) \<Longrightarrow>
   extends_with P h (snd (chunkLoop e p u f S c h))"
proof (induction e p u f S c h rule: chunkLoop.induct)
  case (1 e p u f S c h)
  note pp = "1.prems"(1) and sl = "1.prems"(2)
  show ?case
  proof (cases "c < S")
    case False
    then show ?thesis by (subst chunkLoop.simps) simp
  next
    case True
    define k where "k = min DRIVE_CHUNK_SIZE (S - c)"
    show ?thesis
    proof (cases "readSync e p c k")
      case None
      then show ?thesis using True by (subst chunkLoop.simps) (simp add: k_def Let_def)
    next
      case (Some b)
      show ?thesis
      proof (cases "b \<le> 0")
        case True
        then show ?thesis using \<open>c < S\<close> Some by (subst chunkLoop.simps) (simp add: k_def Let_def)
      next
        case False
        obtain r h1 where rl: "retryLoop e (putResumableChunk e u b c (c + b - 1) S) 1 h = (r, h1)"
          by (cases "retryLoop e (putResumableChunk e u b c (c + b - 1) S) 1 h")
        have "extends_with P h (snd (retryLoop e (putResumableChunk e u b c (c + b - 1) S) 1 h))"
          by (rule retryLoop_extends) (rule put_extends, rule pp, rule sl)
        then have e1: "extends_with P h h1" using rl by simp
        have unfold: "chunkLoop e p u f S c h =
          (case r of
             Some (Inl err) \<Rightarrow> (Inl err, h1)
           | None \<Rightarrow> (Inl (createUploadError ChunkNotUploaded None False None), h1)
           | Some (Inr chunkResult) \<Rightarrow>
               if chunk_done chunkResult
               then (Inr \<lparr>res_id = or_else (chunk_id chunkResult) f, skipped = False, reason = None\<rparr>, h1)
               else chunkLoop e p u f S (c + b) h1)"
          using True False Some rl
          by (subst chunkLoop.simps) (simp add: Let_def k_def[symmetric] split: option.splits sum.splits)
        show ?thesis
        proof (cases r)
          case None
          then show ?thesis using unfold e1 by simp
        next
          case (Some a)
          note Somea = this
          show ?thesis
          proof (cases a)
            case (Inl err)
            then show ?thesis using unfold e1 Some by simp
          next
            case (Inr cr)
            show ?thesis
            proof (cases "chunk_done cr")
              case True
              then show ?thesis using unfold e1 Somea Inr by simp
            next
              case nd: False
              have "extends_with P h1 (snd (chunkLoop e p u f S (c + b) h1))"
                using "1.IH"[OF True k_def \<open>readSync e p c k = Some b\<close> False refl refl rl[symmetric] Somea Inr nd pp sl] .
              then show ?thesis using unfold e1 Somea Inr nd extends_with_trans by auto
            qed
          qed
        qed
      qed
    qed
  qed
qed

lemma chunkLoop_not_skipped:
  "chunkLoop e p u f S c h = (Inr r, h') \<Longrightarrow> \<not> skipped r"
proof (induction e p u f S c h rule: chunkLoop.induct)
  case (1 e p u f S c h)
  show ?case
    using "1.prems"
    apply (subst (asm) chunkLoop.simps)
    apply (auto simp: Let_def split: if_splits option.splits prod.splits sum.splits)
    using "1.IH" apply (auto simp: Let_def)
    done
qed

lemma resumable_extends:
  assumes "\<And>u s en t n out. P (Sent (PutChunk u s en t n) out)" "\<And>w. P (Slept w)"
    "\<And>f m t out. P (Sent (StartResumable f m t) out)"
  shows "extends_with P h (snd (uploadResumableFromFile e fi m f h))"
proof (cases "hasRequire e")
  case False
  then show ?thesis by (simp add: uploadResumableFromFile_def)
next
  case True
  let ?m = "if m = [] then ''application/octet-stream'' else m"
  let ?S = "getFileInputSize e fi"
  obtain r0 h1 where cs: "createResumableSession e ?m f ?S h = (r0, h1)"
    by (cases "createResumableSession e ?m f ?S h")
  have "extends_with P h (snd (createResumableSession e ?m f ?S h))"
    by (rule session_extends) (rule assms(3))
  then have e1: "extends_with P h h1" using cs by simp
  show ?thesis
  proof (cases r0)
    case (Inl err)
    then show ?thesis using True cs e1 by (simp add: uploadResumableFromFile_def Let_def)
  next
    case (Inr url)
    have "extends_with P h1 (snd (chunkLoop e (filePathOf fi) url f ?S 0 h1))"
      by (rule chunkLoop_extends) (rule assms(1), rule assms(2))
    then show ?thesis using True cs e1 Inr extends_with_trans
      by (auto simp: uploadResumableFromFile_def Let_def)
  qed
qed


lemma retryLoop_not_None: "attempt \<le> DRIVE_MAX_RETRIES \<Longrightarrow> fst (retryLoop e run attempt h) \<noteq> None"
proof (induction e run attempt h rule: retryLoop.induct)
  case (1 e run attempt hist)
  obtain r h' where rh: "run hist = (r, h')" by (cases "run hist")
  show ?case
  proof (cases r)
    case (Inr x)
    then show ?thesis using "1.prems" rh by (subst retryLoop.simps) simp
  next
    case (Inl err)
    show ?thesis
    proof (cases "attempt \<ge> DRIVE_MAX_RETRIES \<or> \<not> err_retriable err")
      case True
      then show ?thesis using "1.prems" rh Inl by (subst retryLoop.simps) auto
    next
      case False
      let ?w = "buildRetryDelayMs attempt (err_retryAfterMs err) (random e h')"
      have "fst (retryLoop e run (attempt + 1) (h' @ [Slept ?w])) \<noteq> None"
        using "1.IH"[OF "1.prems" rh[symmetric] Inl False refl] False by simp
      moreover have "retryLoop e run attempt hist = retryLoop e run (attempt + 1) (h' @ [Slept ?w])"
        using False rh Inl by (intro retryLoop_retry) auto
      ultimately show ?thesis by simp
    qed
  qed
qed

lemma retryLoop_success:
  "(\<And>h. extends_with (\<lambda>ev. True) h (snd (run h))) \<Longrightarrow>
   retryLoop e run attempt h = (Some (Inr r), h') \<Longrightarrow>
   \<exists>h0. extends_with (\<lambda>ev. True) h h0 \<and> run h0 = (Inr r, h')"
proof (induction e run attempt h rule: retryLoop.induct)
  case (1 e run attempt hist)
  note step = "1.prems"(1) and res = "1.prems"(2)
  have le: "attempt \<le> DRIVE_MAX_RETRIES"
    using res by (subst (asm) retryLoop.simps) (auto split: if_splits)
  obtain r1 h1 where rh: "run hist = (r1, h1)" by (cases "run hist")
  have b: "extends_with (\<lambda>ev. True) hist h1" using step[of hist] unfolding rh by simp
  show ?case
  proof (cases r1)
    case (Inr x)
    then have "x = r" "h1 = h'" using res le rh by (subst (asm) retryLoop.simps, simp)+
    then show ?thesis using rh Inr by (intro exI[of _ hist]) simp
  next
    case (Inl err)
    show ?thesis
    proof (cases "attempt \<ge> DRIVE_MAX_RETRIES \<or> \<not> err_retriable err")
      case True
      then show ?thesis using res le rh Inl by (subst (asm) retryLoop.simps) auto
    next
      case False
      let ?w = "buildRetryDelayMs attempt (err_retryAfterMs err) (random e h1)"
      have eq: "retryLoop e run (attempt + 1) (h1 @ [Slept ?w]) = (Some (Inr r), h')"
        using res False rh Inl retryLoop_retry[of attempt run hist err h1 e] by auto
      obtain h0 where h0: "extends_with (\<lambda>ev. True) (h1 @ [Slept ?w]) h0" "run h0 = (Inr r, h')"
        using "1.IH"[OF le rh[symmetric] Inl False refl step eq] by blast
      have "extends_with (\<lambda>ev. True) hist (h1 @ [Slept ?w])"
        using b by (rule extends_with_snoc2) simp
      then show ?thesis using h0 extends_with_trans by blast
    qed
  qed
qed

lemma extends_with_mono:
  "extends_with P h h' \<Longrightarrow> (\<And>ev. P ev \<Longrightarrow> Q ev) \<Longrightarrow> extends_with Q h h'"
  by (auto simp: extends_with_def list_all_iff)

lemma extends_drop:
  fixes h' :: "event list"
  shows "extends_with P h h0 \<Longrightarrow> ev \<in> set (drop (length h0) h') \<Longrightarrow> ev \<in> set (drop (length h) h')"
proof -
  assume a: "extends_with P h h0" "ev \<in> set (drop (length h0) h')"
  then have "length h \<le> length h0" by (auto simp: extends_with_def)
  from set_drop_subset_set_drop[OF this, of h'] a(2) show ?thesis by (rule subsetD)
qed

lemma extends_with_all: "extends_with P h h' \<Longrightarrow> \<forall>ev \<in> set (drop (length h) h'). P ev"
  by (auto simp: extends_with_def list_all_iff)

subsection \<open>Chunk coverage\<close>








subsection \<open>The two transfer paths\<close>

lemma uploadBody_simple_path:
  assumes "\<not> (isPathInput fi \<and> DRIVE_RESUMABLE_THRESHOLD \<le> sz)"
  shows "extends_with (\<lambda>ev. \<not> is_start ev \<and> \<not> is_put ev) h (snd (uploadBody e fi m f sz h))"
proof (cases "normalizeContent e fi")
  case (Inl err)
  then show ?thesis using assms by (auto simp: uploadBody_def Let_def)
next
  case (Inr content)
  have "extends_with (\<lambda>ev. \<not> is_start ev \<and> \<not> is_put ev) h
          (snd (retryLoop e (simpleUploadAttempt e content m f) 1 h))"
    by (rule retryLoop_extends, rule simple_extends) (simp_all add: is_start_def is_put_def)
  then show ?thesis using assms Inr
    by (auto simp: uploadBody_def Let_def split: prod.splits option.splits)
qed

lemma uploadBody_simple_sent:
  assumes "\<not> (isPathInput fi \<and> DRIVE_RESUMABLE_THRESHOLD \<le> sz)"
    and "uploadBody e fi m f sz h = (Inr r, h')"
  shows "\<not> skipped r \<and> (\<exists>ev \<in> set (drop (length h) h'). is_patch ev)"
proof -
  from assms obtain content where c: "normalizeContent e fi = Inr content"
    and rl: "retryLoop e (simpleUploadAttempt e content m f) 1 h = (Some (Inr r), h')"
    by (auto simp: uploadBody_def Let_def split: sum.splits prod.splits option.splits)
  have "\<And>h. extends_with (\<lambda>ev. True) h (snd (simpleUploadAttempt e content m f h))"
    by (rule simple_extends) simp
  from retryLoop_success[OF this rl] obtain h0 where
    h0: "extends_with (\<lambda>ev. True) h h0" "simpleUploadAttempt e content m f h0 = (Inr r, h')"
    by blast
  from h0(2) have "\<not> skipped r \<and> (\<exists>out. h' = h0 @ [Sent (PatchMedia f m content) out])"
    by (auto simp: simpleUploadAttempt_def send_def Let_def
        split: net_outcome.splits if_splits body.splits)
  then obtain out where "\<not> skipped r" "h' = h0 @ [Sent (PatchMedia f m content) out]" by blast
  then have ns: "\<not> skipped r" and mem: "Sent (PatchMedia f m content) out \<in> set (drop (length h0) h')" by auto
  from mem have "Sent (PatchMedia f m content) out \<in> set (drop (length h) h')"
    by (rule extends_drop[OF h0(1)])
  moreover have "is_patch (Sent (PatchMedia f m content) out)" by (simp add: is_patch_def)
  ultimately show ?thesis using ns by blast
qed

lemma uploadBody_resumable_path:
  assumes "isPathInput fi \<and> DRIVE_RESUMABLE_THRESHOLD \<le> sz"
  shows "extends_with (\<lambda>ev. \<not> is_patch ev) h (snd (uploadBody e fi m f sz h))"
proof -
  have "extends_with (\<lambda>ev. \<not> is_patch ev) h
          (snd (retryLoop e (uploadResumableFromFile e fi m f) 1 h))"
    by (rule retryLoop_extends, rule resumable_extends) (simp_all add: is_patch_def)
  moreover have "fst (retryLoop e (uploadResumableFromFile e fi m f) 1 h) \<noteq> None"
    by (rule retryLoop_not_None) (simp add: DRIVE_MAX_RETRIES_def)
  ultimately show ?thesis using assms
    by (auto simp: uploadBody_def Let_def split: prod.splits option.splits)
qed

lemma uploadBody_resumable_sent:
  assumes "isPathInput fi \<and> DRIVE_RESUMABLE_THRESHOLD \<le> sz"
    and "uploadBody e fi m f sz h = (Inr r, h')"
  shows "\<not> skipped r \<and>
         (\<exists>out. Sent (StartResumable f (if m = [] then ''application/octet-stream'' else m)
                    (getFileInputSize e fi)) out \<in> set (drop (length h) h'))"
proof -
  have nn: "fst (retryLoop e (uploadResumableFromFile e fi m f) 1 h) \<noteq> None"
    by (rule retryLoop_not_None) (simp add: DRIVE_MAX_RETRIES_def)
  from assms nn have rl: "retryLoop e (uploadResumableFromFile e fi m f) 1 h = (Some (Inr r), h')"
    by (auto simp: uploadBody_def Let_def split: prod.splits option.splits)
  have "\<And>h. extends_with (\<lambda>ev. True) h (snd (uploadResumableFromFile e fi m f h))"
    by (rule resumable_extends) simp_all
  from retryLoop_success[OF this rl] obtain h0 where
    h0: "extends_with (\<lambda>ev. True) h h0" "uploadResumableFromFile e fi m f h0 = (Inr r, h')"
    by blast
  let ?m = "if m = [] then ''application/octet-stream'' else m"
  let ?S = "getFileInputSize e fi"
  obtain r0 h1 where cs: "createResumableSession e ?m f ?S h0 = (r0, h1)"
    by (cases "createResumableSession e ?m f ?S h0")
  from h0(2) cs obtain url where url: "r0 = Inr url"
    and cl: "chunkLoop e (filePathOf fi) url f ?S 0 h1 = (Inr r, h')"
    by (cases r0) (auto simp: uploadResumableFromFile_def Let_def split: if_splits)
  from cs url obtain out where h1: "h1 = h0 @ [Sent (StartResumable f ?m ?S) out]"
    by (auto simp: createResumableSession_def send_def Let_def
        split: net_outcome.splits if_splits option.splits)
  have "extends_with (\<lambda>ev. True) h1 (snd (chunkLoop e (filePathOf fi) url f ?S 0 h1))"
    by (rule chunkLoop_extends) simp_all
  then obtain new where new: "h' = h1 @ new" using cl by (auto simp: extends_with_def)
  have ns: "\<not> skipped r" using chunkLoop_not_skipped[OF cl] .
  have "Sent (StartResumable f ?m ?S) out \<in> set (drop (length h0) h')"
    using h1 new by simp
  then have "Sent (StartResumable f ?m ?S) out \<in> set (drop (length h) h')"
    by (rule extends_drop[OF h0(1)])
  then show ?thesis using ns by (intro conjI exI[of _ out])
qed


lemma upload_stages:
  assumes "uploadFileWithProgress e nm fi m fo a h = (res, h')"
  shows "(\<exists>err. res = Inl err \<and> extends_with (\<lambda>ev. \<not> is_patch ev \<and> \<not> is_start ev \<and> \<not> is_put ev \<and> \<not> is_sleep ev) h h') \<or>
         (\<exists>r. res = Inr r \<and> skipped r \<and> extends_with (\<lambda>ev. \<not> is_patch ev \<and> \<not> is_start ev \<and> \<not> is_put ev \<and> \<not> is_sleep ev) h h'
              \<and> truthy (computeLocalMd5 e fi)) \<or>
         (\<exists>fid h2. extends_with (\<lambda>ev. \<not> is_patch ev \<and> \<not> is_start ev \<and> \<not> is_put ev \<and> \<not> is_sleep ev) h h2 \<and>
              uploadBody e fi m fid (inputSizeOf e fi a) h2 = (res, h'))"
proof (cases "truthy (token e)")
  case False
  then show ?thesis using assms by (auto simp: uploadFileWithProgress_def)
next
  case tok: True
  let ?P = "\<lambda>ev. \<not> is_patch ev \<and> \<not> is_start ev \<and> \<not> is_put ev \<and> \<not> is_sleep ev"
  obtain r1 h1 where f: "findExistingDriveFile e nm fo h = (r1, h1)"
    by (cases "findExistingDriveFile e nm fo h")
  have "extends_with ?P h (snd (findExistingDriveFile e nm fo h))"
    by (rule find_extends) (simp add: is_patch_def is_start_def is_put_def is_sleep_def)
  then have e1: "extends_with ?P h h1" using f by simp
  show ?thesis
  proof (cases r1)
    case (Inl err)
    then show ?thesis using assms tok f e1 by (auto simp: uploadFileWithProgress_def Let_def)
  next
    case (Inr ex)
    let ?id = "case ex of None \<Rightarrow> None | Some f \<Rightarrow> df_id f"
    let ?md5 = "case ex of None \<Rightarrow> None | Some f \<Rightarrow> df_md5Checksum f"
    show ?thesis
    proof (cases "truthy ?id \<and> truthy ?md5 \<and> truthy (computeLocalMd5 e fi) \<and> ?md5 = computeLocalMd5 e fi")
      case True
      then show ?thesis using assms tok f e1 Inr
        by (auto simp: uploadFileWithProgress_def Let_def)
    next
      case False
      obtain r2 h2 where en: "ensureDriveFileMetadata e nm fo ?id h1 = (r2, h2)"
        by (cases "ensureDriveFileMetadata e nm fo ?id h1")
      have "extends_with ?P h1 (snd (ensureDriveFileMetadata e nm fo ?id h1))"
        by (rule ensure_extends) (simp add: is_patch_def is_start_def is_put_def is_sleep_def)
      then have e2: "extends_with ?P h h2" using en e1 extends_with_trans by fastforce
      show ?thesis
      proof (cases r2)
        case (Inl err)
        then show ?thesis using assms tok f Inr False en e2
          by (auto simp: uploadFileWithProgress_def Let_def)
      next
        case (Inr fid)
        then have "uploadBody e fi m fid (inputSizeOf e fi a) h2 = (res, h')"
          using assms tok f \<open>r1 = Inr ex\<close> False en
          by (auto simp: uploadFileWithProgress_def Let_def)
        then show ?thesis using e2 by blast
      qed
    qed
  qed
qed

text \<open>
  C7, as the code has it. An upload given as a file path whose size is at least 8 MiB
  never sends the single \<open>PATCH\<close> of the simple path, and when it ends with an uploaded
  file it has opened a resumable session whose start request declares the total size and
  the MIME type. Every other upload (smaller than 8 MiB, or content held in memory) sends
  no session start and no chunk, and when it ends with an uploaded file it has sent the
  single \<open>PATCH\<close>.
\<close>

theorem transfer_path_choice:
  assumes "uploadFileWithProgress e fileName fileInput mimeType folderId actualFileSize h = (res, h')"
  shows "(isPathInput fileInput \<and> DRIVE_RESUMABLE_THRESHOLD \<le> inputSizeOf e fileInput actualFileSize \<longrightarrow>
            extends_with (\<lambda>ev. \<not> is_patch ev) h h' \<and>
            (\<forall>r. res = Inr r \<and> \<not> skipped r \<longrightarrow>
               (\<exists>fileId out.
                  Sent (StartResumable fileId
                          (if mimeType = [] then ''application/octet-stream'' else mimeType)
                          (getFileInputSize e fileInput)) out \<in> set (drop (length h) h')))) \<and>
         (\<not> (isPathInput fileInput \<and> DRIVE_RESUMABLE_THRESHOLD \<le> inputSizeOf e fileInput actualFileSize) \<longrightarrow>
            extends_with (\<lambda>ev. \<not> is_start ev \<and> \<not> is_put ev) h h' \<and>
            (\<forall>r. res = Inr r \<and> \<not> skipped r \<longrightarrow> (\<exists>ev \<in> set (drop (length h) h'). is_patch ev)))"
proof -
  let ?P = "\<lambda>ev. \<not> is_patch ev \<and> \<not> is_start ev \<and> \<not> is_put ev \<and> \<not> is_sleep ev"
  let ?sz = "inputSizeOf e fileInput actualFileSize"
  let ?big = "isPathInput fileInput \<and> DRIVE_RESUMABLE_THRESHOLD \<le> ?sz"
  from upload_stages[OF assms] consider
      (early) "\<forall>r. res = Inr r \<longrightarrow> skipped r" "extends_with ?P h h'"
    | (body) fid h2 where "extends_with ?P h h2" "uploadBody e fileInput mimeType fid ?sz h2 = (res, h')"
    by auto
  then show ?thesis
  proof cases
    case early
    have "extends_with (\<lambda>ev. \<not> is_patch ev) h h'" "extends_with (\<lambda>ev. \<not> is_start ev \<and> \<not> is_put ev) h h'"
      using early(2) by (auto elim: extends_with_mono)
    then show ?thesis using early(1) by auto
  next
    case body
    show ?thesis
    proof (cases ?big)
      case True
      have "extends_with (\<lambda>ev. \<not> is_patch ev) h2 (snd (uploadBody e fileInput mimeType fid ?sz h2))"
        using True by (rule uploadBody_resumable_path)
      then have a: "extends_with (\<lambda>ev. \<not> is_patch ev) h h'"
        using body extends_with_trans[OF extends_with_mono[OF body(1)]] by simp
      have b: "\<exists>fileId out.
                  Sent (StartResumable fileId
                          (if mimeType = [] then ''application/octet-stream'' else mimeType)
                          (getFileInputSize e fileInput)) out \<in> set (drop (length h) h')"
        if "res = Inr r" for r
      proof -
        from uploadBody_resumable_sent[OF True body(2)[unfolded that]] obtain out where
          "Sent (StartResumable fid (if mimeType = [] then ''application/octet-stream'' else mimeType)
             (getFileInputSize e fileInput)) out \<in> set (drop (length h2) h')" by blast
        then have "Sent (StartResumable fid (if mimeType = [] then ''application/octet-stream'' else mimeType)
             (getFileInputSize e fileInput)) out \<in> set (drop (length h) h')"
          by (rule extends_drop[OF body(1)])
        then show ?thesis by blast
      qed
      show ?thesis using True a b by blast
    next
      case False
      have "extends_with (\<lambda>ev. \<not> is_start ev \<and> \<not> is_put ev) h2 (snd (uploadBody e fileInput mimeType fid ?sz h2))"
        using False by (rule uploadBody_simple_path)
      then have a: "extends_with (\<lambda>ev. \<not> is_start ev \<and> \<not> is_put ev) h h'"
        using body extends_with_trans[OF extends_with_mono[OF body(1)]] by simp
      have b: "\<exists>ev \<in> set (drop (length h) h'). is_patch ev" if "res = Inr r" for r
      proof -
        from uploadBody_simple_sent[OF False body(2)[unfolded that]] obtain ev where
          ev: "ev \<in> set (drop (length h2) h')" "is_patch ev" by blast
        from ev(1) have "ev \<in> set (drop (length h) h')" by (rule extends_drop[OF body(1)])
        then show ?thesis using ev(2) by blast
      qed
      show ?thesis using False a b by blast
    qed
  qed
qed

subsection \<open>Sample runs\<close>

lemmas demo_simps = uploadResumableFromFile_def demo_env_def getFileInputSize_def filePathOf_def
    createResumableSession_def send_def demo_net_def ok200_def is2xx_def Let_def
    putResumableChunk_def DRIVE_CHUNK_SIZE_def DRIVE_MAX_RETRIES_def
    unavailable503_def incomplete308_def createUploadError_def shouldRetryStatus_def
    getRetryAfterMs_def buildRetryDelayMs_def or_else_def truthy_def demo_file_def
    uploadFileWithProgress_def uploadBody_def inputSizeOf_def findExistingDriveFile_def
    ensureDriveFileMetadata_def computeLocalMd5_def isPathInput_def DRIVE_RESUMABLE_THRESHOLD_def
    normalizeContent_def simpleUploadAttempt_def demo_text_def







lemma demo_upload_big_file:
  "uploadFileWithProgress demo_env ''a.mov'' demo_file ''video/quicktime'' ''folder-1'' (Some 20971520) [] =
    (Inr \<lparr>res_id = Some ''file-1'', skipped = False, reason = None\<rparr>,
     [Sent (SearchFile ''a.mov'' ''folder-1'') (Response ok200),
      Sent (CreateFile ''a.mov'' ''folder-1'') (Response ok200),
      Sent (StartResumable (Some ''file-1'') ''video/quicktime'' 20971520) (Response ok200),
      Sent (PutChunk ''https://session/1'' 0 8388607 20971520 8388608) (Response unavailable503),
      Slept 1250,
      Sent (PutChunk ''https://session/1'' 0 8388607 20971520 8388608) (Response incomplete308),
      Sent (PutChunk ''https://session/1'' 8388608 16777215 20971520 8388608) (Response incomplete308),
      Sent (PutChunk ''https://session/1'' 16777216 20971519 20971520 4194304) (Response ok200)])"
  by (simp add: demo_simps chunkLoop.simps retryLoop.simps)

lemma demo_upload_text:
  "uploadFileWithProgress demo_env ''manifest.json'' demo_text ''application/json'' ''folder-1'' None [] =
    (Inr \<lparr>res_id = Some ''file-1'', skipped = False, reason = None\<rparr>,
     [Sent (SearchFile ''manifest.json'' ''folder-1'') (Response ok200),
      Sent (CreateFile ''manifest.json'' ''folder-1'') (Response ok200),
      Sent (PatchMedia (Some ''file-1'') ''application/json'' 8388608) (Response ok200)])"
  by (simp add: demo_simps chunkLoop.simps retryLoop.simps)

theorem transfer_path_choice_witness:
  "isPathInput demo_file \<and>
   DRIVE_RESUMABLE_THRESHOLD \<le> inputSizeOf demo_env demo_file (Some 20971520) \<and>
   fst (uploadFileWithProgress demo_env ''a.mov'' demo_file ''video/quicktime'' ''folder-1''
          (Some 20971520) []) = Inr \<lparr>res_id = Some ''file-1'', skipped = False, reason = None\<rparr> \<and>
   extends_with (\<lambda>ev. \<not> is_patch ev) []
     (snd (uploadFileWithProgress demo_env ''a.mov'' demo_file ''video/quicktime'' ''folder-1''
             (Some 20971520) [])) \<and>
   (\<exists>fileId out. Sent (StartResumable fileId ''video/quicktime'' 20971520) out
      \<in> set (snd (uploadFileWithProgress demo_env ''a.mov'' demo_file ''video/quicktime''
                     ''folder-1'' (Some 20971520) [])))"
proof -
  have ip: "isPathInput demo_file" by (simp add: isPathInput_def demo_file_def)
  have sz: "DRIVE_RESUMABLE_THRESHOLD \<le> inputSizeOf demo_env demo_file (Some 20971520)"
    by (simp add: inputSizeOf_def DRIVE_RESUMABLE_THRESHOLD_def)
  have gs: "getFileInputSize demo_env demo_file = 20971520"
    by (simp add: getFileInputSize_def demo_file_def)
  note t = transfer_path_choice[OF demo_upload_big_file, THEN conjunct1, rule_format, OF conjI[OF ip sz]]
  from t have a: "extends_with (\<lambda>ev. \<not> is_patch ev) []
      (snd (uploadFileWithProgress demo_env ''a.mov'' demo_file ''video/quicktime'' ''folder-1''
             (Some 20971520) []))"
    unfolding demo_upload_big_file by simp
  from t have "\<exists>fileId out. Sent (StartResumable fileId ''video/quicktime'' 20971520) out
      \<in> set (snd (uploadFileWithProgress demo_env ''a.mov'' demo_file ''video/quicktime''
                     ''folder-1'' (Some 20971520) []))"
    unfolding demo_upload_big_file gs by simp
  then show ?thesis using ip sz a unfolding demo_upload_big_file by simp
qed

text \<open>
  C7 as stated fails for content held in memory: a string of 8 MiB is sent with the single
  \<open>PATCH\<close>, and no resumable session is opened.
\<close>

theorem large_in_memory_upload_takes_simple_path:
  "getFileInputSize demo_env demo_text = 8388608 \<and>
   DRIVE_RESUMABLE_THRESHOLD \<le> getFileInputSize demo_env demo_text \<and>
   uploadFileWithProgress demo_env ''manifest.json'' demo_text ''application/json'' ''folder-1'' None [] =
    (Inr \<lparr>res_id = Some ''file-1'', skipped = False, reason = None\<rparr>,
     [Sent (SearchFile ''manifest.json'' ''folder-1'') (Response ok200),
      Sent (CreateFile ''manifest.json'' ''folder-1'') (Response ok200),
      Sent (PatchMedia (Some ''file-1'') ''application/json'' 8388608) (Response ok200)])"
  using demo_upload_text
  by (simp add: getFileInputSize_def normalizeContent_def demo_text_def DRIVE_RESUMABLE_THRESHOLD_def)

subsection \<open>Dedup\<close>


lemma reached_append [simp]: "reached c (xs @ ys) = reached (reached c xs) ys"
  by (induction c xs rule: reached.induct) auto

lemma final_2xx_append: "final_2xx ys \<Longrightarrow> final_2xx (xs @ ys)"
  by (auto simp: final_2xx_def)

lemma put_done_last:
  assumes "retryLoop e (putResumableChunk e u n s en t) attempt h = (Some (Inr cr), h1)"
  shows "\<exists>new. h1 = h @ new \<and> new \<noteq> [] \<and> accepted_chunks new = [(s, en, t, n)] \<and>
           (chunk_done cr \<longrightarrow> final_2xx new)"
proof -
  have "\<And>h. extends_with (\<lambda>ev. True) h (snd (putResumableChunk e u n s en t h))"
    by (rule put_extends) simp
  from retryLoop_success[OF this assms] obtain h0 where
    h0: "extends_with (\<lambda>ev. True) h h0" "putResumableChunk e u n s en t h0 = (Inr cr, h1)"
    by blast
  from h0(1) obtain pre where pre: "h0 = h @ pre" by (auto simp: extends_with_def)
  from h0(2) obtain rr where rr: "h1 = h0 @ [Sent (PutChunk u s en t n) (Response rr)]"
    "chunk_done cr = is2xx (status rr)"
    by (auto simp: putResumableChunk_def send_def Let_def split: net_outcome.splits if_splits)
  let ?new = "pre @ [Sent (PutChunk u s en t n) (Response rr)]"
  have a: "h1 = h @ ?new" using pre rr(1) by simp
  have "accepted_chunks h1 = accepted_chunks h @ [(s, en, t, n)]"
    using retry_put[OF assms] by simp
  then have b: "accepted_chunks ?new = [(s, en, t, n)]" unfolding a by simp
  have c: "chunk_done cr \<longrightarrow> final_2xx ?new" using rr(2) by (simp add: final_2xx_def)
  show ?thesis using a b c by (intro exI[of _ ?new]) simp
qed

lemma chunkLoop_stop:
  "chunkLoop e p u f S c h = (Inr r, h') \<Longrightarrow>
   \<exists>tail. h' = h @ tail \<and> consecutive S c (accepted_chunks tail) \<and> ended e p S c tail"
proof (induction e p u f S c h rule: chunkLoop.induct)
  case (1 e p u f S c h)
  note run = "1.prems"
  show ?case
  proof (cases "c < S")
    case False
    then have "h' = h" using run by (subst (asm) chunkLoop.simps) simp
    then show ?thesis using False by (intro exI[of _ "[]"]) (simp add: ended_def)
  next
    case True
    define k where "k = min DRIVE_CHUNK_SIZE (S - c)"
    show ?thesis
    proof (cases "readSync e p c k")
      case None
      then show ?thesis using True run
        by (subst (asm) chunkLoop.simps) (simp add: k_def Let_def)
    next
      case (Some b)
      show ?thesis
      proof (cases "b \<le> 0")
        case b0: True
        then have "h' = h" using \<open>c < S\<close> Some run
          by (subst (asm) chunkLoop.simps) (simp add: k_def Let_def)
        then show ?thesis using b0 Some
          by (intro exI[of _ "[]"]) (simp add: ended_def k_def)
      next
        case False
        obtain rl h1 where rl: "retryLoop e (putResumableChunk e u b c (c + b - 1) S) 1 h = (rl, h1)"
          by (cases "retryLoop e (putResumableChunk e u b c (c + b - 1) S) 1 h")
        have unfold: "chunkLoop e p u f S c h =
          (case rl of
             Some (Inl err) \<Rightarrow> (Inl err, h1)
           | None \<Rightarrow> (Inl (createUploadError ChunkNotUploaded None False None), h1)
           | Some (Inr chunkResult) \<Rightarrow>
               if chunk_done chunkResult
               then (Inr \<lparr>res_id = or_else (chunk_id chunkResult) f, skipped = False, reason = None\<rparr>, h1)
               else chunkLoop e p u f S (c + b) h1)"
          using True False Some rl
          by (subst chunkLoop.simps) (simp add: Let_def k_def[symmetric] split: option.splits sum.splits)
        show ?thesis
        proof (cases rl)
          case None
          then show ?thesis using unfold run by simp
        next
          case Somea: (Some a)
          show ?thesis
          proof (cases a)
            case (Inl err)
            then show ?thesis using unfold run Somea by simp
          next
            case (Inr cr)
            from put_done_last[OF rl[unfolded Somea Inr]] obtain new1 where
              n1: "h1 = h @ new1" "new1 \<noteq> []" "accepted_chunks new1 = [(c, c + b - 1, S, b)]"
              "chunk_done cr \<longrightarrow> final_2xx new1" by blast
            have ch: "c \<le> c + b - 1" "b = c + b - 1 + 1 - c" "c + b - 1 + 1 = c + b"
              using False by arith+
            show ?thesis
            proof (cases "chunk_done cr")
              case True
              then have "h' = h1" using unfold Somea Inr run by simp
              then show ?thesis using n1 ch True
                by (intro exI[of _ new1]) (simp add: ended_def)
            next
              case nd: False
              have rec: "chunkLoop e p u f S (c + b) h1 = (Inr r, h')"
                using unfold Somea Inr nd run by simp
              from "1.IH"[OF \<open>c < S\<close> k_def Some False refl refl rl[symmetric] Somea Inr nd rec]
              obtain tail2 where t2: "h' = h1 @ tail2"
                "consecutive S (c + b) (accepted_chunks tail2)" "ended e p S (c + b) tail2"
                by blast
              have e2: "ended e p S c (new1 @ tail2)"
                using t2(3) n1(3) ch final_2xx_append[of tail2 new1]
                by (auto simp: ended_def Let_def)
              have c2: "consecutive S c (accepted_chunks (new1 @ tail2))"
                using t2(2) n1(3) ch by simp
              show ?thesis using t2(1) n1(1) c2 e2
                by (intro exI[of _ "new1 @ tail2"]) simp
            qed
          qed
        qed
      qed
    qed
  qed
qed

lemma resumable_stop:
  assumes "uploadResumableFromFile e fi m f h = (Inr r, h')"
  shows "\<exists>out tail.
           h' = h @ Sent (StartResumable f (if m = [] then ''application/octet-stream'' else m)
                           (getFileInputSize e fi)) out # tail \<and>
           consecutive (getFileInputSize e fi) 0 (accepted_chunks tail) \<and>
           ended e (filePathOf fi) (getFileInputSize e fi) 0 tail \<and>
           (full_reads e (filePathOf fi) (getFileInputSize e fi) \<and> terminal_only_at_end e \<longrightarrow>
              partitions (getFileInputSize e fi) 0 (accepted_chunks tail))"
proof -
  let ?m = "if m = [] then ''application/octet-stream'' else m"
  let ?S = "getFileInputSize e fi"
  let ?p = "filePathOf fi"
  from assms have req: "hasRequire e"
    by (auto simp: uploadResumableFromFile_def split: if_splits)
  obtain r0 h1 where cs: "createResumableSession e ?m f ?S h = (r0, h1)"
    by (cases "createResumableSession e ?m f ?S h")
  from assms req cs obtain url where url: "r0 = Inr url"
    and cl: "chunkLoop e ?p url f ?S 0 h1 = (Inr r, h')"
    by (cases r0) (auto simp: uploadResumableFromFile_def Let_def split: if_splits)
  from cs url obtain out where h1: "h1 = h @ [Sent (StartResumable f ?m ?S) out]"
    by (auto simp: createResumableSession_def send_def Let_def
        split: net_outcome.splits if_splits option.splits)
  from chunkLoop_stop[OF cl] obtain tail where
    t: "h' = h1 @ tail" "consecutive ?S 0 (accepted_chunks tail)" "ended e ?p ?S 0 tail"
    by blast
  have p: "full_reads e ?p ?S \<and> terminal_only_at_end e \<longrightarrow> partitions ?S 0 (accepted_chunks tail)"
  proof
    assume a: "full_reads e ?p ?S \<and> terminal_only_at_end e"
    from chunkLoop_partition[OF _ _ _ cl] a obtain cs' where
      c: "accepted_chunks h' = accepted_chunks h1 @ cs'" "partitions ?S 0 cs'" by auto
    have "cs' = accepted_chunks tail" using c(1) t(1) by simp
    then show "partitions ?S 0 (accepted_chunks tail)" using c(2) by simp
  qed
  have "h' = h @ Sent (StartResumable f ?m ?S) out # tail" using t(1) h1 by simp
  then show ?thesis using t(2,3) p by blast
qed

lemma simple_success_last:
  assumes "\<not> (isPathInput fi \<and> DRIVE_RESUMABLE_THRESHOLD \<le> sz)"
    and "uploadBody e fi m f sz h = (Inr r, h')"
  shows "\<exists>content pre rr. normalizeContent e fi = Inr content \<and>
           h' = h @ pre @ [Sent (PatchMedia f m content) (Response rr)] \<and> is2xx (status rr)"
proof -
  from assms obtain content where c: "normalizeContent e fi = Inr content"
    and rl: "retryLoop e (simpleUploadAttempt e content m f) 1 h = (Some (Inr r), h')"
    by (auto simp: uploadBody_def Let_def split: sum.splits prod.splits option.splits)
  have "\<And>h. extends_with (\<lambda>ev. True) h (snd (simpleUploadAttempt e content m f h))"
    by (rule simple_extends) simp
  from retryLoop_success[OF this rl] obtain h0 where
    h0: "extends_with (\<lambda>ev. True) h h0" "simpleUploadAttempt e content m f h0 = (Inr r, h')"
    by blast
  from h0(1) obtain pre where pre: "h0 = h @ pre" by (auto simp: extends_with_def)
  from h0(2) obtain rr where "h' = h0 @ [Sent (PatchMedia f m content) (Response rr)]" "is2xx (status rr)"
    by (auto simp: simpleUploadAttempt_def send_def Let_def
        split: net_outcome.splits if_splits body.splits)
  then show ?thesis using c pre by auto
qed

lemma resumable_success_last:
  assumes "isPathInput fi \<and> DRIVE_RESUMABLE_THRESHOLD \<le> sz"
    and "uploadBody e fi m f sz h = (Inr r, h')"
  shows "\<exists>pre out tail.
           h' = h @ pre @ Sent (StartResumable f (if m = [] then ''application/octet-stream'' else m)
                           (getFileInputSize e fi)) out # tail \<and>
           consecutive (getFileInputSize e fi) 0 (accepted_chunks tail) \<and>
           ended e (filePathOf fi) (getFileInputSize e fi) 0 tail \<and>
           (full_reads e (filePathOf fi) (getFileInputSize e fi) \<and> terminal_only_at_end e \<longrightarrow>
              partitions (getFileInputSize e fi) 0 (accepted_chunks tail))"
proof -
  have nn: "fst (retryLoop e (uploadResumableFromFile e fi m f) 1 h) \<noteq> None"
    by (rule retryLoop_not_None) (simp add: DRIVE_MAX_RETRIES_def)
  from assms nn have rl: "retryLoop e (uploadResumableFromFile e fi m f) 1 h = (Some (Inr r), h')"
    by (auto simp: uploadBody_def Let_def split: prod.splits option.splits)
  have "\<And>h. extends_with (\<lambda>ev. True) h (snd (uploadResumableFromFile e fi m f h))"
    by (rule resumable_extends) simp_all
  from retryLoop_success[OF this rl] obtain h0 where
    h0: "extends_with (\<lambda>ev. True) h h0" "uploadResumableFromFile e fi m f h0 = (Inr r, h')"
    by blast
  from h0(1) obtain pre where pre: "h0 = h @ pre" by (auto simp: extends_with_def)
  from resumable_stop[OF h0(2)] obtain out tail where
    t: "h' = h0 @ Sent (StartResumable f (if m = [] then ''application/octet-stream'' else m)
                           (getFileInputSize e fi)) out # tail"
       "consecutive (getFileInputSize e fi) 0 (accepted_chunks tail)"
       "ended e (filePathOf fi) (getFileInputSize e fi) 0 tail"
       "full_reads e (filePathOf fi) (getFileInputSize e fi) \<and> terminal_only_at_end e \<longrightarrow>
              partitions (getFileInputSize e fi) 0 (accepted_chunks tail)"
    by blast
  have "h' = h @ pre @ Sent (StartResumable f (if m = [] then ''application/octet-stream'' else m)
                           (getFileInputSize e fi)) out # tail"
    using t(1) pre by simp
  then show ?thesis using t(2,3,4) by blast
qed

lemma retryLoop_md5:
  "(\<And>h. run' h = run h) \<Longrightarrow> retryLoop (e\<lparr>md5Of := g\<rparr>) run' attempt h = retryLoop e run attempt h"
proof (induction e run attempt h rule: retryLoop.induct)
  case (1 e run attempt hist)
  note eq = "1.prems"
  show ?case
  proof (cases "attempt \<le> DRIVE_MAX_RETRIES")
    case False
    then show ?thesis by (subst (1 2) retryLoop.simps) simp
  next
    case True
    obtain r h' where rh: "run hist = (r, h')" by (cases "run hist")
    show ?thesis
    proof (cases r)
      case (Inr x)
      then show ?thesis using True rh eq by (subst (1 2) retryLoop.simps) simp
    next
      case (Inl err)
      show ?thesis
      proof (cases "attempt \<ge> DRIVE_MAX_RETRIES \<or> \<not> err_retriable err")
        case True
        then show ?thesis using \<open>attempt \<le> DRIVE_MAX_RETRIES\<close> rh Inl eq
          by (subst (1 2) retryLoop.simps) auto
      next
        case False
        let ?w = "buildRetryDelayMs attempt (err_retryAfterMs err) (random e h')"
        have IH: "retryLoop (e\<lparr>md5Of := g\<rparr>) run' (attempt + 1) (h' @ [Slept ?w]) =
                  retryLoop e run (attempt + 1) (h' @ [Slept ?w])"
          using "1.IH"[OF \<open>attempt \<le> DRIVE_MAX_RETRIES\<close> rh[symmetric] Inl False refl eq] .
        have a: "retryLoop e run attempt hist = retryLoop e run (attempt + 1) (h' @ [Slept ?w])"
          using False rh Inl by (intro retryLoop_retry) auto
        have "run' hist = (Inl err, h')" using rh Inl eq by simp
        then have b: "retryLoop (e\<lparr>md5Of := g\<rparr>) run' attempt hist =
            retryLoop (e\<lparr>md5Of := g\<rparr>) run' (attempt + 1)
              (h' @ [Slept (buildRetryDelayMs attempt (err_retryAfterMs err) (random (e\<lparr>md5Of := g\<rparr>) h'))])"
          using False by (intro retryLoop_retry) auto
        show ?thesis using a b IH by simp
      qed
    qed
  qed
qed

lemma normalizeContent_md5: "normalizeContent (e\<lparr>md5Of := g\<rparr>) fi = normalizeContent e fi"
  by (cases fi) (simp_all add: normalizeContent_def)

lemma getFileInputSize_md5: "getFileInputSize (e\<lparr>md5Of := g\<rparr>) fi = getFileInputSize e fi"
proof (cases fi)
  case (PathInput p sz)
  then show ?thesis by (cases sz) (simp_all add: getFileInputSize_def)
qed (simp_all add: getFileInputSize_def normalizeContent_md5)

lemma inputSizeOf_md5: "inputSizeOf (e\<lparr>md5Of := g\<rparr>) fi a = inputSizeOf e fi a"
  by (cases a) (simp_all add: inputSizeOf_def getFileInputSize_md5)

lemma session_md5:
  "createResumableSession (e\<lparr>md5Of := g\<rparr>) m f t h = createResumableSession e m f t h"
  by (simp add: createResumableSession_def send_def)

lemma put_md5: "putResumableChunk (e\<lparr>md5Of := g\<rparr>) u n s en t h = putResumableChunk e u n s en t h"
  by (simp add: putResumableChunk_def send_def)

lemma simple_md5: "simpleUploadAttempt (e\<lparr>md5Of := g\<rparr>) c m f h = simpleUploadAttempt e c m f h"
  by (simp add: simpleUploadAttempt_def send_def)

lemma chunkLoop_md5:
  "chunkLoop (e\<lparr>md5Of := g\<rparr>) p u f S c h = chunkLoop e p u f S c h"
proof (induction e p u f S c h rule: chunkLoop.induct)
  case (1 e p u f S c h)
  show ?case
  proof (cases "c < S")
    case False
    then show ?thesis by (subst (1 2) chunkLoop.simps) simp
  next
    case True
    define k where "k = min DRIVE_CHUNK_SIZE (S - c)"
    show ?thesis
    proof (cases "readSync e p c k")
      case None
      then show ?thesis using True by (subst (1 2) chunkLoop.simps) (simp add: k_def Let_def)
    next
      case (Some b)
      show ?thesis
      proof (cases "b \<le> 0")
        case True
        then show ?thesis using \<open>c < S\<close> Some by (subst (1 2) chunkLoop.simps) (simp add: k_def Let_def)
      next
        case False
        obtain r h1 where rl: "retryLoop e (putResumableChunk e u b c (c + b - 1) S) 1 h = (r, h1)"
          by (cases "retryLoop e (putResumableChunk e u b c (c + b - 1) S) 1 h")
        have rl': "retryLoop (e\<lparr>md5Of := g\<rparr>) (putResumableChunk (e\<lparr>md5Of := g\<rparr>) u b c (c + b - 1) S) 1 h = (r, h1)"
          using rl retryLoop_md5[where run'="putResumableChunk (e\<lparr>md5Of := g\<rparr>) u b c (c + b - 1) S"
              and run="putResumableChunk e u b c (c + b - 1) S" and e=e and g=g and attempt=1 and h=h]
            put_md5 by simp
        have unfold: "chunkLoop e p u f S c h =
          (case r of
             Some (Inl err) \<Rightarrow> (Inl err, h1)
           | None \<Rightarrow> (Inl (createUploadError ChunkNotUploaded None False None), h1)
           | Some (Inr chunkResult) \<Rightarrow>
               if chunk_done chunkResult
               then (Inr \<lparr>res_id = or_else (chunk_id chunkResult) f, skipped = False, reason = None\<rparr>, h1)
               else chunkLoop e p u f S (c + b) h1)"
          using True False Some rl
          by (subst chunkLoop.simps) (simp add: Let_def k_def[symmetric] split: option.splits sum.splits)
        have unfold': "chunkLoop (e\<lparr>md5Of := g\<rparr>) p u f S c h =
          (case r of
             Some (Inl err) \<Rightarrow> (Inl err, h1)
           | None \<Rightarrow> (Inl (createUploadError ChunkNotUploaded None False None), h1)
           | Some (Inr chunkResult) \<Rightarrow>
               if chunk_done chunkResult
               then (Inr \<lparr>res_id = or_else (chunk_id chunkResult) f, skipped = False, reason = None\<rparr>, h1)
               else chunkLoop (e\<lparr>md5Of := g\<rparr>) p u f S (c + b) h1)"
          using True False Some rl'
          by (subst chunkLoop.simps) (simp add: Let_def k_def[symmetric] split: option.splits sum.splits)
        show ?thesis
        proof (cases r)
          case None
          then show ?thesis using unfold unfold' by simp
        next
          case Somea: (Some a)
          show ?thesis
          proof (cases a)
            case (Inl err)
            then show ?thesis using unfold unfold' Somea by simp
          next
            case (Inr cr)
            show ?thesis
            proof (cases "chunk_done cr")
              case True
              then show ?thesis using unfold unfold' Somea Inr by simp
            next
              case nd: False
              have "chunkLoop (e\<lparr>md5Of := g\<rparr>) p u f S (c + b) h1 = chunkLoop e p u f S (c + b) h1"
                using "1.IH"[OF \<open>c < S\<close> k_def Some False refl refl rl[symmetric] Somea Inr nd] .
              then show ?thesis using unfold unfold' Somea Inr nd by simp
            qed
          qed
        qed
      qed
    qed
  qed
qed

lemma resumable_md5:
  "uploadResumableFromFile (e\<lparr>md5Of := g\<rparr>) fi m f h = uploadResumableFromFile e fi m f h"
  by (auto simp: uploadResumableFromFile_def getFileInputSize_md5 session_md5 chunkLoop_md5 Let_def
      split: prod.splits sum.splits)

lemma uploadBody_md5:
  "uploadBody (e\<lparr>md5Of := g\<rparr>) fi m f sz h = uploadBody e fi m f sz h"
proof -
  have a: "retryLoop (e\<lparr>md5Of := g\<rparr>) (uploadResumableFromFile (e\<lparr>md5Of := g\<rparr>) fi m f) 1 h =
           retryLoop e (uploadResumableFromFile e fi m f) 1 h" for h
    by (rule retryLoop_md5) (rule resumable_md5)
  have b: "retryLoop (e\<lparr>md5Of := g\<rparr>) (simpleUploadAttempt (e\<lparr>md5Of := g\<rparr>) c m f) 1 h =
           retryLoop e (simpleUploadAttempt e c m f) 1 h" for h c
    by (rule retryLoop_md5) (rule simple_md5)
  have c: "normalizeContent (e\<lparr>md5Of := g\<rparr>) fi = normalizeContent e fi"
    by (rule normalizeContent_md5)
  show ?thesis unfolding uploadBody_def a b c by simp
qed

lemma upload_md5:
  assumes "computeLocalMd5 e fi = None"
    and "\<forall>r i f fs. net e h (SearchFile nm fo) = Response r \<and> body r = Parsed i (f # fs) \<longrightarrow>
           df_md5Checksum f \<noteq> g fi"
  shows "uploadFileWithProgress (e\<lparr>md5Of := g\<rparr>) nm fi m fo a h = uploadFileWithProgress e nm fi m fo a h"
proof (cases "truthy (token e)")
  case False
  then show ?thesis by (simp add: uploadFileWithProgress_def)
next
  case tok: True
  have fe: "findExistingDriveFile (e\<lparr>md5Of := g\<rparr>) nm fo h = findExistingDriveFile e nm fo h"
    by (simp add: findExistingDriveFile_def send_def)
  have en: "ensureDriveFileMetadata (e\<lparr>md5Of := g\<rparr>) nm fo x h1 = ensureDriveFileMetadata e nm fo x h1" for x h1
    by (simp add: ensureDriveFileMetadata_def send_def)
  have sz: "inputSizeOf (e\<lparr>md5Of := g\<rparr>) fi a = inputSizeOf e fi a"
    by (rule inputSizeOf_md5)
  obtain r1 h1 where f: "findExistingDriveFile e nm fo h = (r1, h1)"
    by (cases "findExistingDriveFile e nm fo h")
  show ?thesis
  proof (cases r1)
    case (Inl err)
    then show ?thesis using tok f fe by (simp add: uploadFileWithProgress_def Let_def)
  next
    case (Inr ex)
    let ?id = "case ex of None \<Rightarrow> None | Some f \<Rightarrow> df_id f"
    let ?md5 = "case ex of None \<Rightarrow> None | Some f \<Rightarrow> df_md5Checksum f"
    have nm1: "\<not> (truthy ?id \<and> truthy ?md5 \<and> truthy (computeLocalMd5 e fi) \<and> ?md5 = computeLocalMd5 e fi)"
      using assms(1) by (simp add: truthy_def)
    have nm2: "\<not> (truthy ?id \<and> truthy ?md5 \<and> truthy (computeLocalMd5 (e\<lparr>md5Of := g\<rparr>) fi) \<and>
                 ?md5 = computeLocalMd5 (e\<lparr>md5Of := g\<rparr>) fi)"
    proof (cases ex)
      case None
      then show ?thesis by (simp add: truthy_def)
    next
      case (Some df)
      from f Inr Some obtain r i fs where "net e h (SearchFile nm fo) = Response r" "body r = Parsed i (df # fs)"
        by (auto simp: findExistingDriveFile_def send_def Let_def
            split: net_outcome.splits if_splits body.splits list.splits)
      with assms(2) have "df_md5Checksum df \<noteq> g fi" by blast
      then show ?thesis using Some by (auto simp: computeLocalMd5_def truthy_def)
    qed
    have A: "uploadFileWithProgress e nm fi m fo a h =
        (case ensureDriveFileMetadata e nm fo ?id h1 of
           (Inl err, h2) \<Rightarrow> (Inl err, h2)
         | (Inr fileId, h2) \<Rightarrow> uploadBody e fi m fileId (inputSizeOf e fi a) h2)"
      unfolding uploadFileWithProgress_def Let_def f Inr by (simp add: tok nm1)
    have B: "uploadFileWithProgress (e\<lparr>md5Of := g\<rparr>) nm fi m fo a h =
        (case ensureDriveFileMetadata (e\<lparr>md5Of := g\<rparr>) nm fo ?id h1 of
           (Inl err, h2) \<Rightarrow> (Inl err, h2)
         | (Inr fileId, h2) \<Rightarrow>
             uploadBody (e\<lparr>md5Of := g\<rparr>) fi m fileId (inputSizeOf (e\<lparr>md5Of := g\<rparr>) fi a) h2)"
      unfolding uploadFileWithProgress_def Let_def fe f Inr by (simp add: tok nm2)
    show ?thesis unfolding A B en sz uploadBody_md5 ..
  qed
qed

text \<open>
  C10, as the code has it. When the local hash cannot be computed (no \<open>require\<close>, or
  reading or hashing throws), the upload runs exactly as it does with a hash that differs
  from the checksum of the remote copy: same result, same requests. When it returns a
  result, the result is never \<open>skipped\<close>. On the simple path the last request is then
  the \<open>PATCH\<close> that carries the whole content, answered with a 2xx. On the resumable
  path a session was opened for the declared size, and the chunks accepted after it follow
  one another from byte 0 up to the point where the upload ended: byte \<open>S\<close> reached, a
  read that returned no byte, or a 2xx of the server; they cover all \<open>S\<close> bytes when every
  read is full and the server gives a 2xx only to the chunk that ends at byte \<open>S - 1\<close>.
\<close>

theorem md5_failure_bypasses_dedup:
  assumes "\<not> hasRequire e \<or> md5Of e fileInput = None"
    and "uploadFileWithProgress e fileName fileInput mimeType folderId actualFileSize h = (res, h')"
  shows
    "(\<forall>r. res = Inr r \<longrightarrow>
        \<not> skipped r \<and>
        (\<not> (isPathInput fileInput \<and> DRIVE_RESUMABLE_THRESHOLD \<le> inputSizeOf e fileInput actualFileSize) \<longrightarrow>
           (\<exists>content fileId pre rr.
              normalizeContent e fileInput = Inr content \<and>
              h' = h @ pre @ [Sent (PatchMedia fileId mimeType content) (Response rr)] \<and>
              is2xx (status rr))) \<and>
        (isPathInput fileInput \<and> DRIVE_RESUMABLE_THRESHOLD \<le> inputSizeOf e fileInput actualFileSize \<longrightarrow>
           (\<exists>fileId pre out tail.
              h' = h @ pre @
                   Sent (StartResumable fileId
                           (if mimeType = [] then ''application/octet-stream'' else mimeType)
                           (getFileInputSize e fileInput)) out # tail \<and>
              consecutive (getFileInputSize e fileInput) 0 (accepted_chunks tail) \<and>
              ended e (filePathOf fileInput) (getFileInputSize e fileInput) 0 tail \<and>
              (full_reads e (filePathOf fileInput) (getFileInputSize e fileInput) \<and>
               terminal_only_at_end e \<longrightarrow>
                 partitions (getFileInputSize e fileInput) 0 (accepted_chunks tail))))) \<and>
     (\<forall>g. (\<forall>r i f fs. net e h (SearchFile fileName folderId) = Response r \<and>
                       body r = Parsed i (f # fs) \<longrightarrow> df_md5Checksum f \<noteq> g fileInput) \<longrightarrow>
          uploadFileWithProgress (e\<lparr>md5Of := g\<rparr>) fileName fileInput mimeType folderId actualFileSize h =
            (res, h'))"
proof -
  let ?big = "isPathInput fileInput \<and> DRIVE_RESUMABLE_THRESHOLD \<le> inputSizeOf e fileInput actualFileSize"
  have none: "computeLocalMd5 e fileInput = None"
    using assms(1) by (auto simp: computeLocalMd5_def)
  then have nt: "\<not> truthy (computeLocalMd5 e fileInput)" by (simp add: truthy_def)
  have succ: "\<not> skipped r \<and>
        (\<not> ?big \<longrightarrow>
           (\<exists>content fileId pre rr.
              normalizeContent e fileInput = Inr content \<and>
              h' = h @ pre @ [Sent (PatchMedia fileId mimeType content) (Response rr)] \<and>
              is2xx (status rr))) \<and>
        (?big \<longrightarrow>
           (\<exists>fileId pre out tail.
              h' = h @ pre @
                   Sent (StartResumable fileId
                           (if mimeType = [] then ''application/octet-stream'' else mimeType)
                           (getFileInputSize e fileInput)) out # tail \<and>
              consecutive (getFileInputSize e fileInput) 0 (accepted_chunks tail) \<and>
              ended e (filePathOf fileInput) (getFileInputSize e fileInput) 0 tail \<and>
              (full_reads e (filePathOf fileInput) (getFileInputSize e fileInput) \<and>
               terminal_only_at_end e \<longrightarrow>
                 partitions (getFileInputSize e fileInput) 0 (accepted_chunks tail))))"
    if r: "res = Inr r" for r
  proof -
    from upload_stages[OF assms(2)] r nt obtain fid h2 where
      e2: "extends_with (\<lambda>ev. \<not> is_patch ev \<and> \<not> is_start ev \<and> \<not> is_put ev \<and> \<not> is_sleep ev) h h2"
      and ub: "uploadBody e fileInput mimeType fid (inputSizeOf e fileInput actualFileSize) h2 = (Inr r, h')"
      by auto
    from e2 obtain pre0 where pre0: "h2 = h @ pre0" by (auto simp: extends_with_def)
    show ?thesis
    proof (cases ?big)
      case True
      from uploadBody_resumable_sent[OF True ub] have ns: "\<not> skipped r" by blast
      from resumable_success_last[OF True ub] obtain pre out tail where
        t: "h' = h2 @ pre @ Sent (StartResumable fid
                           (if mimeType = [] then ''application/octet-stream'' else mimeType)
                           (getFileInputSize e fileInput)) out # tail"
          "consecutive (getFileInputSize e fileInput) 0 (accepted_chunks tail)"
          "ended e (filePathOf fileInput) (getFileInputSize e fileInput) 0 tail"
          "full_reads e (filePathOf fileInput) (getFileInputSize e fileInput) \<and>
               terminal_only_at_end e \<longrightarrow>
                 partitions (getFileInputSize e fileInput) 0 (accepted_chunks tail)"
        by blast
      have "h' = h @ (pre0 @ pre) @ Sent (StartResumable fid
                           (if mimeType = [] then ''application/octet-stream'' else mimeType)
                           (getFileInputSize e fileInput)) out # tail"
        using t(1) pre0 by simp
      then show ?thesis using True ns t(2,3,4) by blast
    next
      case False
      from uploadBody_simple_sent[OF False ub] have ns: "\<not> skipped r" by blast
      from simple_success_last[OF False ub] obtain content pre rr where
        t: "normalizeContent e fileInput = Inr content"
          "h' = h2 @ pre @ [Sent (PatchMedia fid mimeType content) (Response rr)]" "is2xx (status rr)"
        by blast
      have "h' = h @ (pre0 @ pre) @ [Sent (PatchMedia fid mimeType content) (Response rr)]"
        using t(2) pre0 by simp
      then show ?thesis using False ns t(1,3) by blast
    qed
  qed
  have indep: "\<forall>g. (\<forall>r i f fs. net e h (SearchFile fileName folderId) = Response r \<and>
                       body r = Parsed i (f # fs) \<longrightarrow> df_md5Checksum f \<noteq> g fileInput) \<longrightarrow>
          uploadFileWithProgress (e\<lparr>md5Of := g\<rparr>) fileName fileInput mimeType folderId actualFileSize h =
            (res, h')"
    using upload_md5[OF none, where h=h and nm=fileName and fo=folderId and m=mimeType and a=actualFileSize]
      assms(2) by simp
  show ?thesis using succ indep by blast
qed

lemma demo_upload_nohash:
  "uploadFileWithProgress demo_env_nohash ''b.wav'' small_file ''audio/wav'' ''folder-1'' (Some 2097152) [] =
    (Inr \<lparr>res_id = Some ''file-1'', skipped = False, reason = None\<rparr>,
     [Sent (SearchFile ''b.wav'' ''folder-1'') (Response found200),
      Sent (PatchMedia (Some ''file-1'') ''audio/wav'' 2097152) (Response ok200)])"
  by (simp add: demo_simps demo_env_nohash_def demo_env_existing_def demo_net_existing_def
      found200_def small_file_def retryLoop.simps)

lemma demo_upload_nohash_big:
  "uploadFileWithProgress demo_env_nohash ''a.mov'' demo_file ''video/quicktime'' ''folder-1'' (Some 20971520) [] =
    (Inr \<lparr>res_id = Some ''file-1'', skipped = False, reason = None\<rparr>,
     [Sent (SearchFile ''a.mov'' ''folder-1'') (Response found200),
      Sent (StartResumable (Some ''file-1'') ''video/quicktime'' 20971520) (Response ok200),
      Sent (PutChunk ''https://session/1'' 0 8388607 20971520 8388608) (Response unavailable503),
      Slept 1250,
      Sent (PutChunk ''https://session/1'' 0 8388607 20971520 8388608) (Response unavailable503),
      Slept 2250,
      Sent (PutChunk ''https://session/1'' 0 8388607 20971520 8388608) (Response incomplete308),
      Sent (PutChunk ''https://session/1'' 8388608 16777215 20971520 8388608) (Response incomplete308),
      Sent (PutChunk ''https://session/1'' 16777216 20971519 20971520 4194304) (Response ok200)])"
  by (simp add: demo_simps demo_env_nohash_def demo_env_existing_def demo_net_existing_def
      found200_def chunkLoop.simps retryLoop.simps)

lemma demo_nohash_full_reads:
  "full_reads demo_env_nohash (filePathOf demo_file) (getFileInputSize demo_env_nohash demo_file)"
  by (auto simp: full_reads_def demo_env_nohash_def demo_env_existing_def demo_env_def demo_file_def
      filePathOf_def getFileInputSize_def)

lemma demo_nohash_terminal: "terminal_only_at_end demo_env_nohash"
  by (auto simp: terminal_only_at_end_def demo_env_nohash_def demo_env_existing_def demo_env_def
      demo_net_existing_def demo_net_def unavailable503_def incomplete308_def is2xx_def
      split: if_splits)

text \<open>
  The remote copy has the checksum of the local file and hashing fails: the 2 MiB file is
  sent with the single \<open>PATCH\<close>, the 20 MiB file in three chunks that cover it, and both
  runs are the runs of an upload whose hash differs from the remote checksum.
\<close>

theorem md5_failure_bypasses_dedup_witness:
  "md5Of demo_env_nohash small_file = None \<and>
   md5Of demo_env_nohash demo_file = None \<and>
   uploadFileWithProgress demo_env_nohash ''b.wav'' small_file ''audio/wav'' ''folder-1'' (Some 2097152) [] =
    (Inr \<lparr>res_id = Some ''file-1'', skipped = False, reason = None\<rparr>,
     [Sent (SearchFile ''b.wav'' ''folder-1'') (Response found200),
      Sent (PatchMedia (Some ''file-1'') ''audio/wav'' 2097152) (Response ok200)]) \<and>
   (\<exists>content fileId pre rr.
      normalizeContent demo_env_nohash small_file = Inr content \<and>
      snd (uploadFileWithProgress demo_env_nohash ''b.wav'' small_file ''audio/wav'' ''folder-1''
             (Some 2097152) []) =
        [] @ pre @ [Sent (PatchMedia fileId ''audio/wav'' content) (Response rr)] \<and>
      is2xx (status rr)) \<and>
   isPathInput demo_file \<and>
   DRIVE_RESUMABLE_THRESHOLD \<le> inputSizeOf demo_env_nohash demo_file (Some 20971520) \<and>
   full_reads demo_env_nohash (filePathOf demo_file) (getFileInputSize demo_env_nohash demo_file) \<and>
   terminal_only_at_end demo_env_nohash \<and>
   fst (uploadFileWithProgress demo_env_nohash ''a.mov'' demo_file ''video/quicktime'' ''folder-1''
          (Some 20971520) []) =
     Inr \<lparr>res_id = Some ''file-1'', skipped = False, reason = None\<rparr> \<and>
   (\<exists>fileId pre out tail.
      snd (uploadFileWithProgress demo_env_nohash ''a.mov'' demo_file ''video/quicktime'' ''folder-1''
             (Some 20971520) []) =
        [] @ pre @ Sent (StartResumable fileId ''video/quicktime'' 20971520) out # tail \<and>
      partitions 20971520 0 (accepted_chunks tail)) \<and>
   uploadFileWithProgress (demo_env_nohash\<lparr>md5Of := (\<lambda>fi. Some ''d41d8cd98f00b204e9800998ecf8427e'')\<rparr>)
       ''a.mov'' demo_file ''video/quicktime'' ''folder-1'' (Some 20971520) [] =
     uploadFileWithProgress demo_env_nohash ''a.mov'' demo_file ''video/quicktime'' ''folder-1''
       (Some 20971520) []"
proof -
  let ?small = "uploadFileWithProgress demo_env_nohash ''b.wav'' small_file ''audio/wav'' ''folder-1''
             (Some 2097152) []"
  let ?big = "uploadFileWithProgress demo_env_nohash ''a.mov'' demo_file ''video/quicktime'' ''folder-1''
             (Some 20971520) []"
  have h1: "\<not> hasRequire demo_env_nohash \<or> md5Of demo_env_nohash small_file = None"
    and h2: "\<not> hasRequire demo_env_nohash \<or> md5Of demo_env_nohash demo_file = None"
    and m1: "md5Of demo_env_nohash small_file = None"
    and m2: "md5Of demo_env_nohash demo_file = None"
    by (simp_all add: demo_env_nohash_def)
  have ip: "isPathInput demo_file" by (simp add: isPathInput_def demo_file_def)
  have sz: "DRIVE_RESUMABLE_THRESHOLD \<le> inputSizeOf demo_env_nohash demo_file (Some 20971520)"
    by (simp add: inputSizeOf_def DRIVE_RESUMABLE_THRESHOLD_def)
  have gs: "getFileInputSize demo_env_nohash demo_file = 20971520"
    by (simp add: getFileInputSize_def demo_file_def)
  have nb: "\<not> (isPathInput small_file \<and>
      DRIVE_RESUMABLE_THRESHOLD \<le> inputSizeOf demo_env_nohash small_file (Some 2097152))"
    by (simp add: inputSizeOf_def DRIVE_RESUMABLE_THRESHOLD_def)
  note tS = md5_failure_bypasses_dedup[OF h1 demo_upload_nohash]
  note tB = md5_failure_bypasses_dedup[OF h2 demo_upload_nohash_big]
  from tS[THEN conjunct1, rule_format, OF refl, THEN conjunct2, THEN conjunct1, rule_format, OF nb]
  have a: "\<exists>content fileId pre rr.
      normalizeContent demo_env_nohash small_file = Inr content \<and>
      snd ?small = [] @ pre @ [Sent (PatchMedia fileId ''audio/wav'' content) (Response rr)] \<and>
      is2xx (status rr)"
    unfolding demo_upload_nohash by simp
  from tB[THEN conjunct1, rule_format, OF refl, THEN conjunct2, THEN conjunct2, rule_format,
      OF conjI[OF ip sz]]
  obtain fileId pre out tail where
    t: "snd ?big = [] @ pre @ Sent (StartResumable fileId ''video/quicktime'' 20971520) out # tail"
       "full_reads demo_env_nohash (filePathOf demo_file) 20971520 \<and> terminal_only_at_end demo_env_nohash
          \<longrightarrow> partitions 20971520 0 (accepted_chunks tail)"
    unfolding demo_upload_nohash_big gs by auto
  have "partitions 20971520 0 (accepted_chunks tail)"
    using t(2) demo_nohash_full_reads demo_nohash_terminal unfolding gs by blast
  with t(1) have b: "\<exists>fileId pre out tail.
      snd ?big = [] @ pre @ Sent (StartResumable fileId ''video/quicktime'' 20971520) out # tail \<and>
      partitions 20971520 0 (accepted_chunks tail)" by blast
  have c: "uploadFileWithProgress (demo_env_nohash\<lparr>md5Of := (\<lambda>fi. Some ''d41d8cd98f00b204e9800998ecf8427e'')\<rparr>)
       ''a.mov'' demo_file ''video/quicktime'' ''folder-1'' (Some 20971520) [] = ?big"
    unfolding demo_upload_nohash_big
    by (rule tB[THEN conjunct2, rule_format])
      (simp add: demo_env_nohash_def demo_env_existing_def demo_net_existing_def found200_def)
  have r: "fst ?big = Inr \<lparr>res_id = Some ''file-1'', skipped = False, reason = None\<rparr>"
    unfolding demo_upload_nohash_big by simp
  show ?thesis
    using m1 m2 demo_upload_nohash a ip sz demo_nohash_full_reads demo_nohash_terminal r b c
    by (intro conjI)
qed

text \<open>
  C10 as stated fails for the bytes of a large file: hashing fails, the server answers
  200 to the first chunk, and the upload returns a result with 8 MiB of 20 MiB sent.
\<close>

theorem unhashed_upload_ends_early:
  "md5Of demo_env_nohash_early demo_file = None \<and>
   getFileInputSize demo_env_nohash_early demo_file = 20971520 \<and>
   uploadFileWithProgress demo_env_nohash_early ''a.mov'' demo_file ''video/quicktime'' ''folder-1''
       (Some 20971520) [] =
    (Inr \<lparr>res_id = Some ''file-1'', skipped = False, reason = None\<rparr>,
     [Sent (SearchFile ''a.mov'' ''folder-1'') (Response found200),
      Sent (StartResumable (Some ''file-1'') ''video/quicktime'' 20971520) (Response ok200),
      Sent (PutChunk ''https://session/1'' 0 8388607 20971520 8388608) (Response ok200)]) \<and>
   accepted_chunks
     [Sent (SearchFile ''a.mov'' ''folder-1'') (Response found200),
      Sent (StartResumable (Some ''file-1'') ''video/quicktime'' 20971520) (Response ok200),
      Sent (PutChunk ''https://session/1'' 0 8388607 20971520 8388608) (Response ok200)] =
     [(0, 8388607, 20971520, 8388608)] \<and>
   sum_list (map chunk_len [(0, 8388607, 20971520, 8388608)]) = 8388608"
  by (simp add: demo_simps demo_env_nohash_early_def demo_env_nohash_def demo_env_existing_def
      demo_net_existing_def found200_def chunkLoop.simps retryLoop.simps
      accepted_chunks_def List.map_filter_def chunk_len_def)

subsection \<open>The retry policy in the history of an upload\<close>








lemma last_state_append:
  "last_state p (xs @ ys) = last_state (last_state p xs) ys"
  by (simp add: last_state_def)

lemma last_state_snoc [simp]:
  "last_state p (xs @ [Sent rq out]) = Some (rq, out)" "last_state p (xs @ [Slept w]) = None"
  by (simp_all add: last_state_def)

lemma last_state_Nil [simp]: "last_state p [] = p"
  by (simp add: last_state_def)






lemma ends_Nil [simp]: "\<not> ends_refused []" "\<not> ends_retried []"
  by (simp_all add: ends_refused_def ends_retried_def)

lemma ends_retried_nonempty: "ends_retried xs \<Longrightarrow> xs \<noteq> []"
  by (auto simp: ends_retried_def)





































subsection \<open>Sample runs of the retry policy\<close>







section \<open>Properties of the worker pool\<close>


lemma awaited_start:
  "w < length ws \<Longrightarrow> ws ! w = AtLoopHead \<Longrightarrow> awaited (ws[w := Awaiting j]) = insert j (awaited ws)"
  unfolding awaited_def
  apply (auto simp: nth_list_update split: if_splits)
  apply (metis worker.distinct(1))
  done

lemma awaited_return:
  "w < length ws \<Longrightarrow> ws ! w = AtLoopHead \<Longrightarrow> awaited (ws[w := Returned]) = awaited ws"
  unfolding awaited_def
  apply (auto simp: nth_list_update split: if_splits)
  apply (metis worker.distinct(1))
  done

lemma awaited_done:
  "w < length ws \<Longrightarrow> ws ! w = Awaiting i \<Longrightarrow> one_each ws \<Longrightarrow>
   awaited (ws[w := AtLoopHead]) = awaited ws - {i}"
  unfolding awaited_def one_each_def
  apply (auto simp: nth_list_update split: if_splits)
  apply (metis worker.inject)
  done

lemma one_each_start:
  "w < length ws \<Longrightarrow> one_each ws \<Longrightarrow> j \<notin> awaited ws \<Longrightarrow> one_each (ws[w := Awaiting j])"
  unfolding awaited_def one_each_def
  by (auto simp: nth_list_update split: if_splits)

lemma one_each_other:
  "w < length ws \<Longrightarrow> one_each ws \<Longrightarrow> x = AtLoopHead \<or> x = Returned \<Longrightarrow> one_each (ws[w := x])"
  unfolding one_each_def
  by (auto simp: nth_list_update split: if_splits)

lemma count_status_append [simp]:
  "count_status st (xs @ [(i, x)]) = count_status st xs + (if x = st then 1 else 0)"
  by (simp add: count_status_def)

lemma count_status_total:
  "count_status RUploaded xs + count_status RSkipped xs + count_status RFailed xs
     + count_status RCancelled xs = length xs"
proof (induction xs)
  case Nil
  then show ?case by (simp add: count_status_def)
next
  case (Cons a xs)
  obtain i x where a: "a = (i, x)" by (cases a)
  show ?case using Cons by (cases x) (simp_all add: count_status_def a)
qed


lemma pool_inv_init: "pool_inv totalFiles (pool_init totalFiles)"
  by (auto simp: pool_inv_def pool_init_def in_flight_def awaited_def one_each_def count_status_def)

lemma pool_inv_cancel_all: "pool_inv totalFiles s \<Longrightarrow> pool_inv totalFiles (s\<lparr>ctx_cancelled := True\<rparr>)"
  by (simp add: pool_inv_def in_flight_def)

lemma pool_inv_cancel_file:
  "pool_inv totalFiles s \<Longrightarrow>
   pool_inv totalFiles (s\<lparr>cancelledFiles := cf, fileStatus := fs\<rparr>)"
  by (simp add: pool_inv_def in_flight_def)

lemma pool_inv_settle:
  assumes inv: "pool_inv totalFiles s" and w: "w < length (workers s)"
    and aw: "workers s ! w = Awaiting i"
  shows "pool_inv totalFiles (processSingleFile_settle w i out s)"
proof -
  let ?ws = "(workers s)[w := AtLoopHead]"
  have fl: "awaited ?ws = awaited (workers s) - {i}"
    using awaited_done[OF w aw] inv by (simp add: pool_inv_def)
  have oe: "one_each ?ws"
    using one_each_other[OF w] inv by (simp add: pool_inv_def)
  have iin: "i \<in> awaited (workers s)" using w aw by (auto simp: awaited_def)
  have inotin: "i \<notin> set (map fst (reportEntries s))"
    using inv iin by (auto simp: pool_inv_def in_flight_def)
  have ret: "Returned \<in> set ?ws \<Longrightarrow> Returned \<in> set (workers s)"
    using set_update_subset_insert[of "workers s" w AtLoopHead] by auto
  have un: "insert i (set (map fst (reportEntries s))) \<union> (awaited (workers s) - {i})
      = set (map fst (reportEntries s)) \<union> awaited (workers s)"
    using iin by auto
  show ?thesis
    using inv fl oe inotin ret un
    by (cases out)
      (auto simp: pool_inv_def processSingleFile_settle_def in_flight_def Let_def)
qed

lemma pool_inv_pass:
  assumes inv: "pool_inv totalFiles s" and w: "w < length (workers s)"
    and aw: "workers s ! w = AtLoopHead"
  shows "pool_inv totalFiles (worker_pass totalFiles w s)"
proof (cases "ctx_cancelled s")
  case True
  have "awaited ((workers s)[w := Returned]) = awaited (workers s)"
    by (rule awaited_return[OF w aw])
  moreover have "one_each ((workers s)[w := Returned])"
    using one_each_other[OF w] inv by (simp add: pool_inv_def)
  ultimately show ?thesis using True inv
    by (simp add: worker_pass_def pool_inv_def in_flight_def)
next
  case nc: False
  let ?n = "nextFileIndex s"
  show ?thesis
  proof (cases "?n \<ge> totalFiles")
    case True
    have "awaited ((workers s)[w := Returned]) = awaited (workers s)"
      by (rule awaited_return[OF w aw])
    moreover have "one_each ((workers s)[w := Returned])"
      using one_each_other[OF w] inv by (simp add: pool_inv_def)
    moreover have "min (Suc ?n) totalFiles = min ?n totalFiles" using True by simp
    ultimately show ?thesis using True nc inv
      by (simp add: worker_pass_def pool_inv_def in_flight_def Let_def)
  next
    case False
    then have lt: "?n < totalFiles" by simp
    have range: "set (map fst (reportEntries s)) \<union> awaited (workers s) = {0..<?n}"
      using inv lt by (simp add: pool_inv_def in_flight_def)
    then have fresh: "?n \<notin> set (map fst (reportEntries s))" "?n \<notin> awaited (workers s)"
      by auto
    have m: "min (Suc ?n) totalFiles = Suc ?n" using lt by simp
    have rng: "{0..<Suc ?n} = insert ?n {0..<?n}" by auto
    have ret: "\<not> (totalFiles \<le> ?n)" using lt by simp
    have nret: "Returned \<notin> set (workers s)" using inv nc ret by (auto simp: pool_inv_def)
    show ?thesis
    proof (cases "?n \<in> cancelledFiles s")
      case True
      show ?thesis using True nc lt inv fresh m rng range nret
        by (auto simp: worker_pass_def processSingleFile_begin_def pool_inv_def in_flight_def Let_def)
    next
      case False
      have fl: "awaited ((workers s)[w := Awaiting ?n]) = insert ?n (awaited (workers s))"
        by (rule awaited_start[OF w aw])
      have oe: "one_each ((workers s)[w := Awaiting ?n])"
        using one_each_start[OF w _ fresh(2)] inv by (simp add: pool_inv_def)
      have nret2: "Returned \<notin> set ((workers s)[w := Awaiting ?n])"
        using nret set_update_subset_insert[of "workers s" w "Awaiting ?n"] by auto
      show ?thesis using False nc lt inv fresh m rng range fl oe nret2
        by (auto simp: worker_pass_def processSingleFile_begin_def pool_inv_def in_flight_def Let_def)
    qed
  qed
qed

lemma pool_inv_step: "pool_inv totalFiles s \<Longrightarrow> pool_inv totalFiles (pool_step totalFiles s ev)"
proof (cases ev)
  case (Resume w)
  assume "pool_inv totalFiles s"
  then show ?thesis using Resume pool_inv_pass by simp
next
  case (Settle w out)
  assume "pool_inv totalFiles s"
  then show ?thesis using Settle pool_inv_settle by (auto split: worker.splits)
next
  case CancelAll
  assume "pool_inv totalFiles s"
  then show ?thesis using CancelAll pool_inv_cancel_all by simp
next
  case (CancelFile i)
  assume "pool_inv totalFiles s"
  then show ?thesis using CancelFile pool_inv_cancel_file by simp
qed

lemma pool_inv_foldl:
  "pool_inv totalFiles s \<Longrightarrow> pool_inv totalFiles (foldl (pool_step totalFiles) s evs)"
  by (induction evs arbitrary: s) (simp_all add: pool_inv_step)

lemma pool_inv_run: "pool_inv totalFiles (pool_run totalFiles evs)"
  unfolding pool_run_def by (rule pool_inv_foldl[OF pool_inv_init])


lemma pool_final:
  assumes "list_all (\<lambda>w. w = Returned) (workers (pool_run totalFiles evs))"
  shows "uploadedFilesCount (pool_run totalFiles evs) + skippedFilesCount (pool_run totalFiles evs)
           + failedFilesCount (pool_run totalFiles evs) + cancelledFilesCount (pool_run totalFiles evs)
         = length (reportEntries (pool_run totalFiles evs))"
    and "distinct (map fst (reportEntries (pool_run totalFiles evs)))"
    and "set (map fst (reportEntries (pool_run totalFiles evs)))
           = {0..<min (nextFileIndex (pool_run totalFiles evs)) totalFiles}"
    and "length (reportEntries (pool_run totalFiles evs)) \<le> totalFiles"
    and "\<not> ctx_cancelled (pool_run totalFiles evs) \<Longrightarrow>
           set (map fst (reportEntries (pool_run totalFiles evs))) = {0..<totalFiles} \<and>
           length (reportEntries (pool_run totalFiles evs)) = totalFiles"
proof -
  let ?s = "pool_run totalFiles evs"
  note inv = pool_inv_run[of totalFiles evs, unfolded pool_inv_def]
  have nf: "in_flight ?s = {}"
    using assms by (auto simp: in_flight_def awaited_def list_all_length)
  show sum: "uploadedFilesCount ?s + skippedFilesCount ?s + failedFilesCount ?s + cancelledFilesCount ?s
         = length (reportEntries ?s)"
    using inv count_status_total[of "reportEntries ?s"] by simp
  show d: "distinct (map fst (reportEntries ?s))" using inv by simp
  show r: "set (map fst (reportEntries ?s)) = {0..<min (nextFileIndex ?s) totalFiles}"
    using inv nf by simp
  have "length (reportEntries ?s) = card (set (map fst (reportEntries ?s)))"
    using distinct_card[OF d] by simp
  then have len: "length (reportEntries ?s) = min (nextFileIndex ?s) totalFiles"
    using r by simp
  then show "length (reportEntries ?s) \<le> totalFiles" by simp
  show "set (map fst (reportEntries ?s)) = {0..<totalFiles} \<and> length (reportEntries ?s) = totalFiles"
    if nc: "\<not> ctx_cancelled ?s"
  proof (cases "totalFiles = 0")
    case True
    then show ?thesis using r len by simp
  next
    case False
    have "length (workers ?s) = min MAX_PARALLEL_UPLOADS totalFiles" using inv by simp
    then have "workers ?s \<noteq> []" using False by (auto simp: MAX_PARALLEL_UPLOADS_def)
    then have "Returned \<in> set (workers ?s)"
      using assms by (cases "workers ?s") (auto simp: list_all_iff)
    then have "totalFiles \<le> nextFileIndex ?s" using inv nc by simp
    then show ?thesis using r len by simp
  qed
qed

text \<open>
  C3, as the code has it. When \<open>uploadProjectWithConcurrency\<close> returns the counters (no
  global cancellation; files may have been cancelled one by one), they add up to the
  number of selected files, the report has exactly one entry for every file, and each
  counter is the number of entries with its status. After a global cancellation the
  function returns \<open>{ success: false, cancelled: true }\<close>; the counters then cover only the
  files that a worker had taken, and add up to at most the number of selected files.
\<close>

theorem count_conservation:
  "(\<forall>u sk f c total entries.
      uploadProjectWithConcurrency totalFiles evs = Some (PushDone u sk f c total entries) \<longrightarrow>
        u + sk + f + c = totalFiles \<and> total = totalFiles \<and>
        distinct (map fst entries) \<and> set (map fst entries) = {0..<totalFiles} \<and>
        u = count_status RUploaded entries \<and> sk = count_status RSkipped entries \<and>
        f = count_status RFailed entries \<and> c = count_status RCancelled entries) \<and>
   (uploadProjectWithConcurrency totalFiles evs = Some PushCancelled \<longrightarrow>
      ctx_cancelled (pool_run totalFiles evs) \<and>
      uploadedFilesCount (pool_run totalFiles evs) + skippedFilesCount (pool_run totalFiles evs)
        + failedFilesCount (pool_run totalFiles evs) + cancelledFilesCount (pool_run totalFiles evs)
        \<le> totalFiles)"
proof (intro conjI allI impI)
  fix u sk f c total entries
  assume a: "uploadProjectWithConcurrency totalFiles evs = Some (PushDone u sk f c total entries)"
  let ?s = "pool_run totalFiles evs"
  from a have fin: "list_all (\<lambda>w. w = Returned) (workers ?s)" and nc: "\<not> ctx_cancelled ?s"
    and eqs: "u = uploadedFilesCount ?s" "sk = skippedFilesCount ?s" "f = failedFilesCount ?s"
      "c = cancelledFilesCount ?s" "total = totalFiles" "entries = reportEntries ?s"
    by (auto simp: uploadProjectWithConcurrency_def Let_def split: if_splits)
  note inv = pool_inv_run[of totalFiles evs, unfolded pool_inv_def]
  show "u + sk + f + c = totalFiles" using pool_final(1)[OF fin] pool_final(5)[OF fin nc] eqs by simp
  show "total = totalFiles" by fact
  show "distinct (map fst entries)" using pool_final(2)[OF fin] eqs by simp
  show "set (map fst entries) = {0..<totalFiles}" using pool_final(5)[OF fin nc] eqs by simp
  show "u = count_status RUploaded entries" using inv eqs by simp
  show "sk = count_status RSkipped entries" using inv eqs by simp
  show "f = count_status RFailed entries" using inv eqs by simp
  show "c = count_status RCancelled entries" using inv eqs by simp
next
  assume a: "uploadProjectWithConcurrency totalFiles evs = Some PushCancelled"
  let ?s = "pool_run totalFiles evs"
  from a have fin: "list_all (\<lambda>w. w = Returned) (workers ?s)" and c: "ctx_cancelled ?s"
    by (auto simp: uploadProjectWithConcurrency_def Let_def split: if_splits)
  show "ctx_cancelled ?s" by fact
  show "uploadedFilesCount ?s + skippedFilesCount ?s + failedFilesCount ?s + cancelledFilesCount ?s
        \<le> totalFiles"
    using pool_final(1)[OF fin] pool_final(4)[OF fin] by simp
qed

lemmas pool_simps = pool_run_def pool_init_def MAX_PARALLEL_UPLOADS_def worker_pass_def
  processSingleFile_begin_def processSingleFile_settle_def Let_def createUploadError_def
  uploadProjectWithConcurrency_def numeral_3_eq_3


lemma cancelled_push_result:
  "uploadProjectWithConcurrency 4 cancelled_push = Some PushCancelled"
  by (simp add: pool_simps cancelled_push_def)

lemma cancelled_push_counters:
  "uploadedFilesCount (pool_run 4 cancelled_push) = 1 \<and>
   skippedFilesCount (pool_run 4 cancelled_push) = 0 \<and>
   failedFilesCount (pool_run 4 cancelled_push) = 0 \<and>
   cancelledFilesCount (pool_run 4 cancelled_push) = 2"
  by (simp add: pool_simps cancelled_push_def)

text \<open>
  C3 as stated fails after a global cancellation: of four files three are counted
  (one uploaded, two cancelled in flight), the fourth is in no bucket, and the function
  returns no counters.
\<close>

theorem global_cancel_loses_files:
  "uploadProjectWithConcurrency 4 cancelled_push = Some PushCancelled \<and>
   uploadedFilesCount (pool_run 4 cancelled_push) + skippedFilesCount (pool_run 4 cancelled_push)
     + failedFilesCount (pool_run 4 cancelled_push) + cancelledFilesCount (pool_run 4 cancelled_push) = 3 \<and>
   map fst (reportEntries (pool_run 4 cancelled_push)) = [0, 1, 2]"
  by (simp add: pool_simps cancelled_push_def)

lemma per_file_cancel_result:
  "uploadProjectWithConcurrency 3 per_file_cancel_push =
     Some (PushDone 1 0 0 2 3 [(1, RCancelled), (0, RUploaded), (2, RCancelled)])"
  by (simp add: pool_simps per_file_cancel_push_def)

theorem count_conservation_witness:
  "uploadProjectWithConcurrency 3 per_file_cancel_push =
     Some (PushDone 1 0 0 2 3 [(1, RCancelled), (0, RUploaded), (2, RCancelled)]) \<and>
   (1::nat) + 0 + 0 + 2 = 3 \<and>
   set (map fst [(1::nat, RCancelled), (0, RUploaded), (2, RCancelled)]) = {0..<3} \<and>
   uploadProjectWithConcurrency 4 cancelled_push = Some PushCancelled \<and>
   uploadedFilesCount (pool_run 4 cancelled_push) + skippedFilesCount (pool_run 4 cancelled_push)
     + failedFilesCount (pool_run 4 cancelled_push) + cancelledFilesCount (pool_run 4 cancelled_push) \<le> 4"
proof -
  note a = count_conservation[of 3 per_file_cancel_push, THEN conjunct1, rule_format,
      OF per_file_cancel_result]
  note b = count_conservation[of 4 cancelled_push, THEN conjunct2, rule_format,
      OF cancelled_push_result]
  have "(1::nat) + 0 + 0 + 2 = 3" using a by blast
  moreover have "set (map fst [(1::nat, RCancelled), (0, RUploaded), (2, RCancelled)]) = {0..<3}"
    using a by blast
  ultimately show ?thesis using b per_file_cancel_result cancelled_push_result by blast
qed










section \<open>Properties of pulls\<close>

subsection \<open>The order of transfers\<close>


lemma blocks_simps [simp]:
  "blocks [] = []" "blocks (n # ns) = TransferStart n # TransferEnd n # blocks ns"
  "blocks (xs @ ys) = blocks xs @ blocks ys"
  by (simp_all add: blocks_def)

lemma started_blocks [simp]: "started (blocks ns) = ns"
  by (induction ns) simp_all

lemma one_at_a_time_blocks [simp]: "one_at_a_time (blocks ns)"
  by (induction ns) simp_all







lemmas path_simps = win_def bslash_def normPath_def slashesToBackslashes_def joinPath_def
  toLowerCase_def lower_char_def existsSync_def writeFileSync_def doubleBackslashes_def
  isPrproj_def endsWith_def




lemma dl_step:
  "(cancelled (ds_trace s) \<and> downloadLoop e cancelled pp (f # rest) s = s) \<or>
   (cancelled (ds_trace s @ [TransferStart (de_name f)]) \<and>
    downloadLoop e cancelled pp (f # rest) s =
      s\<lparr>ds_trace := ds_trace s @ [TransferStart (de_name f), TransferEnd (de_name f)]\<rparr>) \<or>
   (\<exists>s1. downloadLoop e cancelled pp (f # rest) s = downloadLoop e cancelled pp rest s1 \<and>
      ds_trace s1 = ds_trace s \<and> ds_disk s1 = ds_disk s \<and>
      existsSync (ds_disk s) (pp @ [bslash] @ de_name f)) \<or>
   (\<exists>s1. downloadLoop e cancelled pp (f # rest) s = downloadLoop e cancelled pp rest s1 \<and>
      ds_trace s1 = ds_trace s @ [TransferStart (de_name f), TransferEnd (de_name f)] \<and>
      \<not> existsSync (ds_disk s) (pp @ [bslash] @ de_name f) \<and>
      (ds_disk s1 = ds_disk s \<or>
       (\<exists>c. ds_disk s1 = writeFileSync (ds_disk s) (pp @ [bslash] @ de_name f) c)))"
proof -
  let ?tp = "pp @ [bslash] @ de_name f"
  let ?blk = "[TransferStart (de_name f), TransferEnd (de_name f)]"
  let ?L = "downloadLoop e cancelled pp (f # rest) s"
  show ?thesis
  proof (cases "cancelled (ds_trace s)")
    case True
    then show ?thesis by simp
  next
    case nc: False
    show ?thesis
    proof (cases "existsSync (ds_disk s) ?tp")
      case ex: True
      show ?thesis
      proof (cases "localSizeOf e (ds_disk s) ?tp = sizeOrZero (de_size f)")
        case True
        let ?s1 = "s\<lparr>ds_skippedFiles := ds_skippedFiles s + 1,
                      ds_completedFiles := ds_completedFiles s + 1,
                      ds_downloadedBytes := ds_downloadedBytes s + sizeOrZero (de_size f)\<rparr>"
        have "?L = downloadLoop e cancelled pp rest ?s1" using nc ex True by (simp add: Let_def)
        then have "\<exists>s1. ?L = downloadLoop e cancelled pp rest s1 \<and>
            ds_trace s1 = ds_trace s \<and> ds_disk s1 = ds_disk s \<and> existsSync (ds_disk s) ?tp"
          using ex by (intro exI[of _ ?s1]) simp
        then show ?thesis by blast
      next
        case False
        let ?s1 = "s\<lparr>ds_conflicts := ds_conflicts s @
                        [\<lparr>c_name = de_name f, c_localPath = ?tp, c_driveFile = f,
                          c_localSize = localSizeOf e (ds_disk s) ?tp,
                          c_driveSize = sizeOrZero (de_size f)\<rparr>],
                      ds_completedFiles := ds_completedFiles s + 1\<rparr>"
        have "?L = downloadLoop e cancelled pp rest ?s1" using nc ex False by (simp add: Let_def)
        then have "\<exists>s1. ?L = downloadLoop e cancelled pp rest s1 \<and>
            ds_trace s1 = ds_trace s \<and> ds_disk s1 = ds_disk s \<and> existsSync (ds_disk s) ?tp"
          using ex by (intro exI[of _ ?s1]) simp
        then show ?thesis by blast
      qed
    next
      case nex: False
      let ?sF = "s\<lparr>ds_failedFiles := ds_failedFiles s + 1,
                     ds_completedFiles := ds_completedFiles s + 1,
                     ds_trace := ds_trace s @ ?blk\<rparr>"
      show ?thesis
      proof (cases "dl_downloadFile e (de_id f)")
        case None
        have "?L = downloadLoop e cancelled pp rest ?sF" using nc nex None by (simp add: Let_def)
        then have "\<exists>s1. ?L = downloadLoop e cancelled pp rest s1 \<and>
            ds_trace s1 = ds_trace s @ ?blk \<and> \<not> existsSync (ds_disk s) ?tp \<and>
            (ds_disk s1 = ds_disk s \<or> (\<exists>c. ds_disk s1 = writeFileSync (ds_disk s) ?tp c))"
          using nex by (intro exI[of _ ?sF]) simp
        then show ?thesis by blast
      next
        case (Some fileContent)
        show ?thesis
        proof (cases "cancelled (ds_trace s @ [TransferStart (de_name f)])")
          case True
          then have "?L = s\<lparr>ds_trace := ds_trace s @ ?blk\<rparr>" using nc nex Some by (simp add: Let_def)
          then show ?thesis using True by blast
        next
          case nc2: False
          show ?thesis
          proof (cases "dl_write_err e ?tp")
            case True
            have "?L = downloadLoop e cancelled pp rest ?sF"
              using nc nex Some nc2 True by (simp add: Let_def)
            then have "\<exists>s1. ?L = downloadLoop e cancelled pp rest s1 \<and>
                ds_trace s1 = ds_trace s @ ?blk \<and> \<not> existsSync (ds_disk s) ?tp \<and>
                (ds_disk s1 = ds_disk s \<or> (\<exists>c. ds_disk s1 = writeFileSync (ds_disk s) ?tp c))"
              using nex by (intro exI[of _ ?sF]) simp
            then show ?thesis by blast
          next
            case False
            let ?sW = "s\<lparr>ds_disk := writeFileSync (ds_disk s) ?tp fileContent,
                       ds_downloadedList := ds_downloadedList s @
                         [(de_name f, ?tp, sizeOrZero (de_size f))],
                       ds_downloadedFiles := ds_downloadedFiles s + 1,
                       ds_downloadedBytes := ds_downloadedBytes s + sizeOrZero (de_size f),
                       ds_completedFiles := ds_completedFiles s + 1,
                       ds_trace := ds_trace s @ ?blk\<rparr>"
            have "?L = downloadLoop e cancelled pp rest ?sW"
              using nc nex Some nc2 False by (simp add: Let_def)
            then have "\<exists>s1. ?L = downloadLoop e cancelled pp rest s1 \<and>
                ds_trace s1 = ds_trace s @ ?blk \<and> \<not> existsSync (ds_disk s) ?tp \<and>
                (ds_disk s1 = ds_disk s \<or> (\<exists>c. ds_disk s1 = writeFileSync (ds_disk s) ?tp c))"
              using nex by (intro exI[of _ ?sW]) auto
            then show ?thesis by blast
          qed
        qed
      qed
    qed
  qed
qed








lemmas dl_simps = downloadProjectWithProgress_def demo_listing_def path_simps demo_disk_def
      demo_dl_env_def sizeOrZero_def Let_def localSizeOf_def


subsection \<open>Files that exist locally\<close>

lemma dl_disk_frame:
  "ds_disk s p \<noteq> None \<Longrightarrow> ds_disk (downloadLoop e cancelled pp fs s) p = ds_disk s p"
proof (induction fs arbitrary: s)
  case Nil
  then show ?case by simp
next
  case (Cons f rest)
  let ?tp = "pp @ [bslash] @ de_name f"
  let ?blk = "[TransferStart (de_name f), TransferEnd (de_name f)]"
  from dl_step[where e=e and cancelled=cancelled and pp=pp and f=f and rest=rest and s=s]
  consider (stop) "downloadLoop e cancelled pp (f # rest) s = s"
    | (stop2) "downloadLoop e cancelled pp (f # rest) s = s\<lparr>ds_trace := ds_trace s @ ?blk\<rparr>"
    | (cont) s1 where "downloadLoop e cancelled pp (f # rest) s = downloadLoop e cancelled pp rest s1"
        "ds_disk s1 = ds_disk s \<or>
         (\<not> existsSync (ds_disk s) ?tp \<and> (\<exists>c. ds_disk s1 = writeFileSync (ds_disk s) ?tp c))"
    by blast
  then show ?case
  proof cases
    case stop
    then show ?thesis by (simp del: downloadLoop.simps)
  next
    case stop2
    then show ?thesis by (simp del: downloadLoop.simps)
  next
    case cont
    have same: "ds_disk s1 p = ds_disk s p"
      using cont(2) Cons.prems by (auto simp: existsSync_def writeFileSync_def)
    then have "ds_disk s1 p \<noteq> None" using Cons.prems by simp
    from Cons.IH[OF this] show ?thesis using cont(1) same by (simp del: downloadLoop.simps)
  qed
qed

lemma dl_conflicts_kept:
  "x \<in> set (ds_conflicts s) \<Longrightarrow> x \<in> set (ds_conflicts (downloadLoop e cancelled pp fs s))"
  by (induction fs arbitrary: s) (auto simp: Let_def split: option.splits)

text \<open>
  C5, as the code has it. When the loop of \<open>downloadProjectWithProgress\<close> reaches an
  entry without the download having been cancelled, and a local file exists at the target
  path: if the local size, as the code measures it, equals the remote size, the entry is
  counted as skipped and the loop goes on; if not, a conflict with the name, the local path,
  the remote entry and the two sizes is appended, and it is still in the list when the loop
  ends. In both cases nothing is transferred and the disk is not touched. When the
  download has been cancelled the loop stops, and the entry is not classified. No run of
  the loop changes a file that was on disk before, and the function returns the list of
  conflicts of the final state.
\<close>

theorem pull_size_classification:
  "(\<not> cancelled (ds_trace s) \<and> existsSync (ds_disk s) (projectPath @ [bslash] @ de_name driveFile) \<longrightarrow>
      (localSizeOf e (ds_disk s) (projectPath @ [bslash] @ de_name driveFile) = sizeOrZero (de_size driveFile) \<longrightarrow>
        downloadLoop e cancelled projectPath (driveFile # rest) s =
          downloadLoop e cancelled projectPath rest
            (s\<lparr>ds_skippedFiles := ds_skippedFiles s + 1,
               ds_completedFiles := ds_completedFiles s + 1,
               ds_downloadedBytes := ds_downloadedBytes s + sizeOrZero (de_size driveFile)\<rparr>)) \<and>
      (localSizeOf e (ds_disk s) (projectPath @ [bslash] @ de_name driveFile) \<noteq> sizeOrZero (de_size driveFile) \<longrightarrow>
        downloadLoop e cancelled projectPath (driveFile # rest) s =
          downloadLoop e cancelled projectPath rest
            (s\<lparr>ds_conflicts := ds_conflicts s @
                 [\<lparr>c_name = de_name driveFile,
                   c_localPath = projectPath @ [bslash] @ de_name driveFile,
                   c_driveFile = driveFile,
                   c_localSize = localSizeOf e (ds_disk s) (projectPath @ [bslash] @ de_name driveFile),
                   c_driveSize = sizeOrZero (de_size driveFile)\<rparr>],
               ds_completedFiles := ds_completedFiles s + 1\<rparr>) \<and>
        \<lparr>c_name = de_name driveFile,
         c_localPath = projectPath @ [bslash] @ de_name driveFile,
         c_driveFile = driveFile,
         c_localSize = localSizeOf e (ds_disk s) (projectPath @ [bslash] @ de_name driveFile),
         c_driveSize = sizeOrZero (de_size driveFile)\<rparr>
          \<in> set (ds_conflicts (downloadLoop e cancelled projectPath (driveFile # rest) s)))) \<and>
   (cancelled (ds_trace s) \<longrightarrow>
      downloadLoop e cancelled projectPath (driveFile # rest) s = s) \<and>
   (\<forall>p. ds_disk s p \<noteq> None \<longrightarrow>
      ds_disk (downloadLoop e cancelled projectPath (driveFile # rest) s) p = ds_disk s p) \<and>
   (\<forall>driveFiles. listing = Inr driveFiles \<and> driveFiles \<noteq> [] \<longrightarrow>
      (\<exists>st. downloadProjectWithProgress e cancelled projectName listing targetFolder updateInPlace d =
          (DownloadDone (length (ds_downloadedList st)) (ds_skippedFiles st) (ds_failedFiles st)
             (ds_conflicts st) (if updateInPlace then targetFolder else targetFolder @ [bslash] @ projectName),
           st) \<and>
        st = downloadLoop e cancelled
               (if updateInPlace then targetFolder else targetFolder @ [bslash] @ projectName) driveFiles
               \<lparr>ds_completedFiles = 0, ds_downloadedFiles = 0, ds_skippedFiles = 0,
                ds_failedFiles = 0, ds_conflicts = [], ds_downloadedBytes = 0,
                ds_downloadedList = [], ds_disk = d, ds_trace = []\<rparr>))"
proof -
  let ?tp = "projectPath @ [bslash] @ de_name driveFile"
  let ?conf = "\<lparr>c_name = de_name driveFile, c_localPath = ?tp, c_driveFile = driveFile,
         c_localSize = localSizeOf e (ds_disk s) ?tp, c_driveSize = sizeOrZero (de_size driveFile)\<rparr>"
  let ?s1 = "s\<lparr>ds_conflicts := ds_conflicts s @ [?conf], ds_completedFiles := ds_completedFiles s + 1\<rparr>"
  let ?L = "downloadLoop e cancelled projectPath (driveFile # rest) s"
  have "?conf \<in> set (ds_conflicts ?s1)" by simp
  from dl_conflicts_kept[OF this]
  have b2: "?conf \<in> set (ds_conflicts (downloadLoop e cancelled projectPath rest ?s1))" .
  have a: "\<not> cancelled (ds_trace s) \<and> existsSync (ds_disk s) ?tp \<longrightarrow>
      (localSizeOf e (ds_disk s) ?tp = sizeOrZero (de_size driveFile) \<longrightarrow>
        ?L = downloadLoop e cancelled projectPath rest
            (s\<lparr>ds_skippedFiles := ds_skippedFiles s + 1,
               ds_completedFiles := ds_completedFiles s + 1,
               ds_downloadedBytes := ds_downloadedBytes s + sizeOrZero (de_size driveFile)\<rparr>)) \<and>
      (localSizeOf e (ds_disk s) ?tp \<noteq> sizeOrZero (de_size driveFile) \<longrightarrow>
        ?L = downloadLoop e cancelled projectPath rest ?s1 \<and> ?conf \<in> set (ds_conflicts ?L))"
  proof (intro impI conjI)
    assume h: "\<not> cancelled (ds_trace s) \<and> existsSync (ds_disk s) ?tp"
    {
      assume "localSizeOf e (ds_disk s) ?tp = sizeOrZero (de_size driveFile)"
      then show "?L = downloadLoop e cancelled projectPath rest
            (s\<lparr>ds_skippedFiles := ds_skippedFiles s + 1,
               ds_completedFiles := ds_completedFiles s + 1,
               ds_downloadedBytes := ds_downloadedBytes s + sizeOrZero (de_size driveFile)\<rparr>)"
        using h by (simp add: Let_def)
    }
    {
      assume n: "localSizeOf e (ds_disk s) ?tp \<noteq> sizeOrZero (de_size driveFile)"
      then show eq: "?L = downloadLoop e cancelled projectPath rest ?s1"
        using h by (simp add: Let_def)
      show "?conf \<in> set (ds_conflicts ?L)" unfolding eq by (rule b2)
    }
  qed
  have c0: "cancelled (ds_trace s) \<longrightarrow> ?L = s" by simp
  have c: "\<forall>p. ds_disk s p \<noteq> None \<longrightarrow> ds_disk ?L p = ds_disk s p"
    using dl_disk_frame by blast
  have d: "\<forall>driveFiles. listing = Inr driveFiles \<and> driveFiles \<noteq> [] \<longrightarrow>
      (\<exists>st. downloadProjectWithProgress e cancelled projectName listing targetFolder updateInPlace d =
          (DownloadDone (length (ds_downloadedList st)) (ds_skippedFiles st) (ds_failedFiles st)
             (ds_conflicts st) (if updateInPlace then targetFolder else targetFolder @ [bslash] @ projectName),
           st) \<and>
        st = downloadLoop e cancelled
               (if updateInPlace then targetFolder else targetFolder @ [bslash] @ projectName) driveFiles
               \<lparr>ds_completedFiles = 0, ds_downloadedFiles = 0, ds_skippedFiles = 0,
                ds_failedFiles = 0, ds_conflicts = [], ds_downloadedBytes = 0,
                ds_downloadedList = [], ds_disk = d, ds_trace = []\<rparr>)"
    by (simp add: downloadProjectWithProgress_def Let_def)
  show ?thesis
    by (intro conjI) (rule a, rule c0, rule c, rule d)
qed

theorem pull_size_classification_witness:
  "ds_trace demo_dl_state = [] \<and>
   existsSync (ds_disk demo_dl_state) (win [''C:'', ''Sync'', ''Promo'', ''c.png'']) \<and>
   localSizeOf demo_dl_env (ds_disk demo_dl_state) (win [''C:'', ''Sync'', ''Promo'', ''c.png'']) = 2 \<and>
   sizeOrZero (Some 3) = 3 \<and>
   \<lparr>c_name = ''c.png'', c_localPath = win [''C:'', ''Sync'', ''Promo'', ''c.png''],
    c_driveFile = \<lparr>de_id = ''id-c'', de_name = ''c.png'', de_size = Some 3\<rparr>,
    c_localSize = 2, c_driveSize = 3\<rparr>
     \<in> set (ds_conflicts (downloadLoop demo_dl_env (\<lambda>tr. False) (win [''C:'', ''Sync'', ''Promo''])
                 [\<lparr>de_id = ''id-c'', de_name = ''c.png'', de_size = Some 3\<rparr>] demo_dl_state)) \<and>
   ds_disk (downloadLoop demo_dl_env (\<lambda>tr. False) (win [''C:'', ''Sync'', ''Promo''])
              [\<lparr>de_id = ''id-c'', de_name = ''c.png'', de_size = Some 3\<rparr>] demo_dl_state)
     (win [''C:'', ''Sync'', ''Promo'', ''c.png'']) = Some [0, 0] \<and>
   fst (downloadProjectWithProgress demo_dl_env (\<lambda>tr. False) ''Promo'' (Inr demo_listing)
          (win [''C:'', ''Sync'']) False demo_disk) =
     DownloadDone 2 1 0
       [\<lparr>c_name = ''c.png'', c_localPath = win [''C:'', ''Sync'', ''Promo'', ''c.png''],
         c_driveFile = \<lparr>de_id = ''id-c'', de_name = ''c.png'', de_size = Some 3\<rparr>,
         c_localSize = 2, c_driveSize = 3\<rparr>]
       (win [''C:'', ''Sync'', ''Promo''])"
proof -
  let ?f = "\<lparr>de_id = ''id-c'', de_name = ''c.png'', de_size = Some 3\<rparr>"
  let ?pp = "win [''C:'', ''Sync'', ''Promo'']"
  let ?L = "downloadLoop demo_dl_env (\<lambda>tr. False) ?pp [?f] demo_dl_state"
  have tp: "?pp @ [bslash] @ de_name ?f = win [''C:'', ''Sync'', ''Promo'', ''c.png'']"
    by (simp add: win_def)
  have tr: "ds_trace demo_dl_state = []" by (simp add: demo_dl_state_def)
  have ex: "existsSync (ds_disk demo_dl_state) (win [''C:'', ''Sync'', ''Promo'', ''c.png''])"
    by (simp add: demo_dl_state_def demo_disk_def path_simps)
  have ls: "localSizeOf demo_dl_env (ds_disk demo_dl_state) (win [''C:'', ''Sync'', ''Promo'', ''c.png'']) = 2"
    by (simp add: demo_dl_state_def demo_disk_def path_simps localSizeOf_def demo_dl_env_def)
  have ds: "sizeOrZero (Some 3) = 3" by (simp add: sizeOrZero_def)
  note t = pull_size_classification[where e=demo_dl_env and cancelled="\<lambda>tr. False" and s=demo_dl_state
      and projectPath="?pp" and driveFile="?f" and rest="[]", unfolded tp]
  have hyp: "\<not> False \<and> existsSync (ds_disk demo_dl_state) (win [''C:'', ''Sync'', ''Promo'', ''c.png''])"
    using ex by simp
  have ne: "localSizeOf demo_dl_env (ds_disk demo_dl_state) (win [''C:'', ''Sync'', ''Promo'', ''c.png''])
      \<noteq> sizeOrZero (de_size ?f)"
    using ls by (simp add: sizeOrZero_def)
  from t[THEN conjunct1, rule_format, OF hyp, THEN conjunct2, rule_format, OF ne, THEN conjunct2]
  have mem: "\<lparr>c_name = ''c.png'', c_localPath = win [''C:'', ''Sync'', ''Promo'', ''c.png''],
      c_driveFile = ?f, c_localSize = 2, c_driveSize = 3\<rparr> \<in> set (ds_conflicts ?L)"
    unfolding ls by (simp add: sizeOrZero_def)
  have dk: "ds_disk demo_dl_state (win [''C:'', ''Sync'', ''Promo'', ''c.png'']) = Some [0, 0]"
    by (simp add: demo_dl_state_def demo_disk_def path_simps)
  then have "ds_disk demo_dl_state (win [''C:'', ''Sync'', ''Promo'', ''c.png'']) \<noteq> None" by simp
  from t[THEN conjunct2, THEN conjunct2, THEN conjunct1, rule_format, OF this] dk
  have fr: "ds_disk ?L (win [''C:'', ''Sync'', ''Promo'', ''c.png'']) = Some [0, 0]" by simp
  have run: "fst (downloadProjectWithProgress demo_dl_env (\<lambda>tr. False) ''Promo'' (Inr demo_listing)
          (win [''C:'', ''Sync'']) False demo_disk) =
     DownloadDone 2 1 0
       [\<lparr>c_name = ''c.png'', c_localPath = win [''C:'', ''Sync'', ''Promo'', ''c.png''],
         c_driveFile = ?f, c_localSize = 2, c_driveSize = 3\<rparr>] ?pp"
    by (simp add: dl_simps)
  show ?thesis using tr ex ls ds mem fr run by (intro conjI)
qed

text \<open>
  C5 as stated fails after a cancellation: \<open>c.png\<close> is on disk with another size than
  the remote one, the download is cancelled during the first transfer, and the returned
  list of conflicts is empty.
\<close>

theorem cancelled_pull_leaves_entries_unclassified:
  "existsSync demo_disk (win [''C:'', ''Sync'', ''Promo'', ''c.png'']) \<and>
   localSizeOf demo_dl_env demo_disk (win [''C:'', ''Sync'', ''Promo'', ''c.png'']) = 2 \<and>
   sizeOrZero (Some 3) = 3 \<and>
   downloadProjectWithProgress demo_dl_env demo_cancel_during_first ''Promo'' (Inr demo_listing)
          (win [''C:'', ''Sync'']) False demo_disk =
     (DownloadDone 0 0 0 [] (win [''C:'', ''Sync'', ''Promo'']),
      \<lparr>ds_completedFiles = 0, ds_downloadedFiles = 0, ds_skippedFiles = 0,
       ds_failedFiles = 0, ds_conflicts = [], ds_downloadedBytes = 0,
       ds_downloadedList = [], ds_disk = demo_disk,
       ds_trace = [TransferStart ''Promo.prproj'', TransferEnd ''Promo.prproj'']\<rparr>)"
  by (simp add: dl_simps demo_cancel_during_first_def)

subsection \<open>The patcher\<close>



















end
